theory Spec2Isabelle
  imports Complex_Main
begin

section \<open>PLoM: a shallow embedding of \<^verbatim>\<open>plom.py\<close>\<close>

text \<open>
  Arrays of floats are modelled over the reals: a one-dimensional array is a list, a
  two-dimensional array is the list of its rows. Every property below is a property of
  the real-number reading of the code; rounding is not modelled. Where the code would
  raise, or where IEEE arithmetic would leave the reals (a division by zero), the model
  returns an error value.
\<close>

type_synonym vec = "real list"
type_synonym mat = "real list list"

datatype py_error =
    TypeError
  | ValueError
  | AttributeError
  | ZeroDivisionError
  | TooManySamples
  | UnboundLocalError
  | LinAlgError
  | NonFinite

subsection \<open>\<^verbatim>\<open>get_samples\<close>\<close>

text \<open>
  The two entries of \<^verbatim>\<open>plom_dict['data']\<close> that \<^verbatim>\<open>get_samples\<close> reads. \<open>None\<close> is
  Python's \<^verbatim>\<open>None\<close>: the stage that fills the entry has not run.
\<close>

record plom_data =
  training :: "mat option"
  augmented :: "mat option"

text \<open>
  \<^verbatim>\<open>k\<close> is an \<open>int\<close>, so the \<^verbatim>\<open>isinstance(k, int)\<close> test passes by typing, and an entry
  that is present is an array, so the \<^verbatim>\<open>isinstance(samples, np.ndarray)\<close> test passes
  too. The last branch builds its message with \<^verbatim>\<open>int(samples_size/train_size)\<close>, which
  divides by zero for an empty training set before the exception itself is raised.
\<close>

definition get_samples :: "plom_data \<Rightarrow> int \<Rightarrow> py_error + mat" where
  "get_samples plom_dict k =
     (if k < 0 then Inl ValueError
      else if k = 0 then
        (case augmented plom_dict of
           None \<Rightarrow> Inl ValueError
         | Some samples \<Rightarrow> Inr samples)
      else
        (case training plom_dict of
           None \<Rightarrow> Inl AttributeError
         | Some tr \<Rightarrow>
             (case augmented plom_dict of
                None \<Rightarrow> Inl AttributeError
              | Some aug \<Rightarrow>
                  (let train_size = int (length tr);
                       samples_size = int (length aug)
                   in if k * train_size < samples_size
                      then Inr (take (nat (k * train_size)) aug)
                      else if train_size = 0 then Inl ZeroDivisionError
                      else Inl TooManySamples))))"

subsection \<open>\<^verbatim>\<open>_get_dmaps_optimal_dimension\<close>\<close>

text \<open>
  The \<^verbatim>\<open>for a in range(2, len(eigvalues))\<close> loop with its \<^verbatim>\<open>break\<close>: the list argument
  holds the indices still to be visited, the last argument the value of \<^verbatim>\<open>m\<close> so far. The
  quotient is the quotient of reals; for \<^verbatim>\<open>eigvalues[1] = 0\<close> the quotient of the code is
  infinite or not a number, and every theorem about this function assumes
  \<^verbatim>\<open>eigvalues[1]\<close> to be non-zero.
\<close>

fun dimension_loop :: "real list \<Rightarrow> real \<Rightarrow> nat list \<Rightarrow> int \<Rightarrow> int" where
  "dimension_loop eigvalues L [] m = m"
| "dimension_loop eigvalues L (a # as) m =
     (let r = eigvalues ! a / eigvalues ! 1
      in if r < L then int a - 1 else dimension_loop eigvalues L as m)"

definition get_dmaps_optimal_dimension :: "real list \<Rightarrow> real \<Rightarrow> int" where
  "get_dmaps_optimal_dimension eigvalues L =
     dimension_loop eigvalues L [2..<length eigvalues] (int (length eigvalues) - 1)"

text \<open>
  The rule in the words of the specification, with \<open>\<mu>\<^sub>0\<close> the first entry: scan
  \<open>i = 2, \<dots>, N - 1\<close> and return \<open>i - 1\<close> for the first \<open>i\<close> with \<open>\<mu>\<^sub>i\<^sub>+\<^sub>1 / \<mu>\<^sub>1 < L\<close>. The
  specification gives no value when the scan finds nothing.
\<close>

definition spec_manifold_dimension :: "real list \<Rightarrow> real \<Rightarrow> int option" where
  "spec_manifold_dimension mu L =
     map_option (\<lambda>i. int i - 1)
       (find (\<lambda>i. mu ! (i + 1) / mu ! 1 < L) [2..<length mu])"

subsection \<open>\<^verbatim>\<open>_pca\<close>: truncation by cumulative energy\<close>

text \<open>
  Python's \<^verbatim>\<open>xs[j:]\<close>: a negative start counts from the end and is clamped at the
  beginning of the list.
\<close>

definition slice_from :: "int \<Rightarrow> 'a list \<Rightarrow> 'a list" where
  "slice_from j xs =
     (if j < 0 then drop (nat (max 0 (int (length xs) + j))) xs else drop (nat j) xs)"

text \<open>
  The branch \<^verbatim>\<open>method == 'cum_energy'\<close> of \<^verbatim>\<open>_pca\<close>. \<open>eigvals\<close> is what
  \<^verbatim>\<open>np.linalg.eigh\<close> returned, in ascending order. The loop runs over
  \<^verbatim>\<open>range(len(eigvals)+1)\<close> and assigns \<^verbatim>\<open>eigvals_trunc\<close> only when it breaks; when it
  never breaks the name is unbound at its first use.
\<close>

fun cum_energy_loop :: "real list \<Rightarrow> real \<Rightarrow> real \<Rightarrow> nat list \<Rightarrow> py_error + real list" where
  "cum_energy_loop eigvals tot_eigvals cumulative_energy [] = Inl UnboundLocalError"
| "cum_energy_loop eigvals tot_eigvals cumulative_energy (i # is) =
     (if sum_list (take i eigvals) / tot_eigvals > 1 - cumulative_energy
      then Inr (slice_from (int i - 1) eigvals)
      else cum_energy_loop eigvals tot_eigvals cumulative_energy is)"

definition pca_cum_energy :: "real list \<Rightarrow> real \<Rightarrow> py_error + real list" where
  "pca_cum_energy eigvals cumulative_energy =
     (let tot_eigvals = sum_list eigvals
      in cum_energy_loop eigvals tot_eigvals cumulative_energy [0..<length eigvals + 1])"

text \<open>
  The rule in the words of the specification: the smallest \<open>\<nu>\<close> such that the \<open>\<nu>\<close>
  largest eigenvalues (the last \<open>\<nu>\<close> entries of the ascending list) carry at least the
  share \<open>E\<close> of the total.
\<close>

definition top_sum :: "real list \<Rightarrow> nat \<Rightarrow> real" where
  "top_sum eigvals nu = sum_list (drop (length eigvals - nu) eigvals)"

definition spec_cum_energy_dim :: "real list \<Rightarrow> real \<Rightarrow> nat option" where
  "spec_cum_energy_dim eigvals E =
     find (\<lambda>nu. E \<le> top_sum eigvals nu / sum_list eigvals) [0..<length eigvals + 1]"

subsection \<open>Arrays\<close>

text \<open>
  \<open>is_mat nr nc A\<close>: \<open>A\<close> has shape \<open>(nr, nc)\<close>. \<open>column A j\<close> is \<^verbatim>\<open>A[:, j]\<close>. A binary operation
  between a matrix and a vector broadcasts the vector along the rows, as NumPy does for
  shapes \<open>(N, n)\<close> and \<open>(n,)\<close>.
\<close>

definition is_mat :: "nat \<Rightarrow> nat \<Rightarrow> mat \<Rightarrow> bool" where
  "is_mat nr nc A \<longleftrightarrow> length A = nr \<and> (\<forall>r\<in>set A. length r = nc)"

definition nrows :: "mat \<Rightarrow> nat" where
  "nrows A = length A"

definition ncols :: "mat \<Rightarrow> nat" where
  "ncols A = (case A of [] \<Rightarrow> 0 | r # _ \<Rightarrow> length r)"

definition column :: "mat \<Rightarrow> nat \<Rightarrow> vec" where
  "column A j = map (\<lambda>r. r ! j) A"

definition broadcast :: "(real \<Rightarrow> real \<Rightarrow> real) \<Rightarrow> mat \<Rightarrow> vec \<Rightarrow> mat" where
  "broadcast f A v = map (\<lambda>r. map2 f r v) A"

definition np_mean :: "vec \<Rightarrow> real" where
  "np_mean xs = sum_list xs / real (length xs)"

text \<open>\<^verbatim>\<open>np.std\<close> with its default \<^verbatim>\<open>ddof=0\<close>: the population standard deviation.\<close>

definition np_std :: "vec \<Rightarrow> real" where
  "np_std xs = sqrt (np_mean (map (\<lambda>x. (x - np_mean xs)\<^sup>2) xs))"

text \<open>\<^verbatim>\<open>np.linalg.norm\<close> of a vector.\<close>

definition np_norm :: "vec \<Rightarrow> real" where
  "np_norm xs = sqrt (sum_list (map (\<lambda>x. x\<^sup>2) xs))"

subsection \<open>\<^verbatim>\<open>_scaleMinMax\<close>, \<^verbatim>\<open>_scaleNormalize\<close>, \<^verbatim>\<open>scale\<close>, \<^verbatim>\<open>_inverse_scale\<close>\<close>

text \<open>
  \<^verbatim>\<open>scale[scale==0] = 1\<close> is the \<open>map\<close> with the conditional. \<^verbatim>\<open>np.min\<close> along an axis of
  length zero raises; the mean of no rows is not a number.
\<close>

definition scaleMinMax :: "mat \<Rightarrow> py_error + (mat \<times> vec \<times> vec)" where
  "scaleMinMax X =
     (if X = [] then Inl ValueError
      else
        (let Xmin = map (\<lambda>j. Min (set (column X j))) [0..<ncols X];
             Xmax = map (\<lambda>j. Max (set (column X j))) [0..<ncols X];
             scale = map2 (-) Xmax Xmin;
             scale = map (\<lambda>s. if s = 0 then 1 else s) scale;
             X_scaled = broadcast (/) (broadcast (-) X Xmin) scale
         in Inr (X_scaled, Xmin, scale)))"

definition scaleNormalize :: "mat \<Rightarrow> py_error + (mat \<times> vec \<times> vec)" where
  "scaleNormalize X =
     (if X = [] then Inl NonFinite
      else
        (let means = map (\<lambda>j. np_mean (column X j)) [0..<ncols X];
             scales = map (\<lambda>j. np_std (column X j)) [0..<ncols X];
             scales = map (\<lambda>s. if s = 0 then 1 else s) scales;
             X_scaled = broadcast (/) (broadcast (-) X means) scales
         in Inr (X_scaled, means, scales)))"

text \<open>
  The wrapper \<^verbatim>\<open>scale\<close> dispatches on the option string; with any other string neither
  branch assigns \<^verbatim>\<open>scaled_train\<close>.
\<close>

definition scale :: "string \<Rightarrow> mat \<Rightarrow> py_error + (mat \<times> vec \<times> vec)" where
  "scale scaling_method training_data =
     (if scaling_method = ''MinMax'' then scaleMinMax training_data
      else if scaling_method = ''Normalization'' then scaleNormalize training_data
      else Inl UnboundLocalError)"

definition inverse_scale :: "mat \<Rightarrow> vec \<Rightarrow> vec \<Rightarrow> mat" where
  "inverse_scale X centers scales = broadcast (+) (broadcast (*) X scales) centers"

subsection \<open>\<^verbatim>\<open>_get_conditional_weights\<close>\<close>

text \<open>
  The sequential path (\<^verbatim>\<open>parallel=False\<close>) with the bandwidth \<^verbatim>\<open>sw\<close> given. \<^verbatim>\<open>W\<close> has
  shape \<open>(Nsim, nw)\<close>. The code divides by \<^verbatim>\<open>w_std\<close> without a guard: where a column of
  \<^verbatim>\<open>W\<close> is constant its standard deviation is \<open>0\<close>, the quotient is infinite or not a
  number in every row, and so is every weight returned; the model reports that as
  \<open>NonFinite\<close>. \<^verbatim>\<open>np.max\<close> of an empty array raises, and \<^verbatim>\<open>-1/(2*sw**2)\<close> divides by
  zero for \<^verbatim>\<open>sw = 0\<close>.
\<close>

definition get_conditional_weights :: "mat \<Rightarrow> vec \<Rightarrow> real \<Rightarrow> py_error + vec" where
  "get_conditional_weights W w0 sw =
     (let w_std = map (\<lambda>j. np_std (column W j)) [0..<ncols W]
      in if sw = 0 then Inl ZeroDivisionError
         else if W = [] then Inl ValueError
         else if 0 \<in> set w_std then Inl NonFinite
         else
           (let w_norms = map (\<lambda>r. - 1 / (2 * sw\<^sup>2) * (np_norm r)\<^sup>2)
                              (broadcast (/) (broadcast (-) W w0) w_std);
                w_dist = map (\<lambda>e. exp (e - Max (set w_norms))) w_norms;
                w_dist_tot = sum_list w_dist
            in Inr (map (\<lambda>d. d / w_dist_tot) w_dist)))"

subsection \<open>Matrix operations\<close>

text \<open>
  \<open>mk_mat nr nc f\<close> is the array of shape \<open>(nr, nc)\<close> with entry \<open>f i j\<close> at \<open>[i, j]\<close>. A list
  of rows does not record the number of columns of an array without rows, so the
  operations below are those of NumPy on arrays whose dimensions are all positive; a
  mismatch of shapes, on which NumPy raises, is excluded by the shape hypotheses of the
  theorems.
\<close>

definition mk_mat :: "nat \<Rightarrow> nat \<Rightarrow> (nat \<Rightarrow> nat \<Rightarrow> real) \<Rightarrow> mat" where
  "mk_mat nr nc f = map (\<lambda>i. map (f i) [0..<nc]) [0..<nr]"

definition np_transpose :: "mat \<Rightarrow> mat" where
  "np_transpose A = mk_mat (ncols A) (nrows A) (\<lambda>i j. A ! j ! i)"

text \<open>\<^verbatim>\<open>np.dot\<close> of two matrices, and of a matrix and a vector.\<close>

definition np_dot :: "mat \<Rightarrow> mat \<Rightarrow> mat" where
  "np_dot A B = mk_mat (nrows A) (ncols B) (\<lambda>i j. \<Sum>k<ncols A. A ! i ! k * B ! k ! j)"

definition np_dot_vec :: "mat \<Rightarrow> vec \<Rightarrow> vec" where
  "np_dot_vec A v = map (\<lambda>i. \<Sum>k<ncols A. A ! i ! k * v ! k) [0..<nrows A]"

text \<open>A scalar times a matrix, and the sum of two matrices of one shape.\<close>

definition smult :: "real \<Rightarrow> mat \<Rightarrow> mat" where
  "smult c A = map (map ((*) c)) A"

definition madd :: "mat \<Rightarrow> mat \<Rightarrow> mat" where
  "madd A B = map2 (map2 (+)) A B"

definition identity_mat :: "nat \<Rightarrow> mat" where
  "identity_mat n = mk_mat n n (\<lambda>i j. if i = j then 1 else 0)"

text \<open>\<^verbatim>\<open>np.zeros((nr, nc))\<close>.\<close>

definition zeros :: "nat \<Rightarrow> nat \<Rightarrow> mat" where
  "zeros nr nc = mk_mat nr nc (\<lambda>i j. 0)"

subsection \<open>\<^verbatim>\<open>_get_L\<close>, method 2\<close>

text \<open>
  The branch \<^verbatim>\<open>method == 2\<close> (the default, and the one the specification calls
  canonical) of \<^verbatim>\<open>_get_L(H, u, kde_bw_factor, method)\<close>; the other branches are not
  embedded. \<^verbatim>\<open>H\<close> has shape \<open>(nu, N)\<close> and \<^verbatim>\<open>u\<close> has shape \<open>(nu, M)\<close>. \<^verbatim>\<open>**\<close> with a
  fractional exponent is \<open>powr\<close>. The quotient \<^verbatim>\<open>4 / (N*(2+nu))\<close> is a quotient of Python
  numbers and raises for \<open>N = 0\<close>; the division by \<^verbatim>\<open>s\<close> is a division of arrays and
  yields values that are not numbers for \<open>s = 0\<close>.
\<close>

definition get_L :: "mat \<Rightarrow> mat \<Rightarrow> real \<Rightarrow> py_error + mat" where
  "get_L H u kde_bw_factor =
     (let nu = nrows H; N = ncols H
      in if N = 0 then Inl ZeroDivisionError
         else
           (let s = (4 / (real N * (2 + real nu))) powr (1 / (real nu + 4)) * kde_bw_factor;
                shat = s / sqrt (s\<^sup>2 + (real N - 1) / real N)
            in if s = 0 then Inl NonFinite
               else
                 (let scaled_H = map (map (\<lambda>h. h * shat / s)) H;
                      dist_mat_list =
                        map (\<lambda>x. np_transpose (broadcast (-) (np_transpose scaled_H) x))
                            (np_transpose u);
                      norms_list =
                        map (\<lambda>D. map (\<lambda>k. exp ((- 1 / (2 * shat\<^sup>2)) * (np_norm (column D k))\<^sup>2))
                                       [0..<ncols D])
                            dist_mat_list;
                      q_list = map (\<lambda>w. sum_list w / real N) norms_list;
                      product = map2 np_dot_vec dist_mat_list norms_list;
                      dq_list = map (map (\<lambda>p. p / shat\<^sup>2 / real N)) product;
                      pot = np_transpose (map2 (\<lambda>dq q. map (\<lambda>d. d / q) dq) dq_list q_list)
                  in Inr pot)))"

text \<open>
  The gradient of the log-density in the words of the specification, entry by entry:
  \<open>spec_r\<close> is component \<open>j\<close> of \<open>r\<^bsub>k,l\<^esub>\<close>.
\<close>

definition spec_s :: "nat \<Rightarrow> nat \<Rightarrow> real \<Rightarrow> real" where
  "spec_s nu N beta = (4 / (real N * (2 + real nu))) powr (1 / (real nu + 4)) * beta"

definition spec_shat :: "nat \<Rightarrow> nat \<Rightarrow> real \<Rightarrow> real" where
  "spec_shat nu N beta =
     spec_s nu N beta / sqrt ((spec_s nu N beta)\<^sup>2 + (real N - 1) / real N)"

definition spec_r :: "mat \<Rightarrow> mat \<Rightarrow> real \<Rightarrow> real \<Rightarrow> nat \<Rightarrow> nat \<Rightarrow> nat \<Rightarrow> real" where
  "spec_r H u s shat k l j = (shat / s) * H ! j ! k - u ! j ! l"

definition spec_w :: "nat \<Rightarrow> mat \<Rightarrow> mat \<Rightarrow> real \<Rightarrow> real \<Rightarrow> nat \<Rightarrow> nat \<Rightarrow> real" where
  "spec_w nu H u s shat k l = exp (- (\<Sum>j<nu. (spec_r H u s shat k l j)\<^sup>2) / (2 * shat\<^sup>2))"

definition spec_q :: "nat \<Rightarrow> nat \<Rightarrow> mat \<Rightarrow> mat \<Rightarrow> real \<Rightarrow> real \<Rightarrow> nat \<Rightarrow> real" where
  "spec_q nu N H u s shat l = (1 / real N) * (\<Sum>k<N. spec_w nu H u s shat k l)"

definition spec_grad_q :: "nat \<Rightarrow> nat \<Rightarrow> mat \<Rightarrow> mat \<Rightarrow> real \<Rightarrow> real \<Rightarrow> nat \<Rightarrow> nat \<Rightarrow> real" where
  "spec_grad_q nu N H u s shat l j =
     (1 / (real N * shat\<^sup>2)) * (\<Sum>k<N. spec_r H u s shat k l j * spec_w nu H u s shat k l)"

definition spec_grad_log_q :: "nat \<Rightarrow> nat \<Rightarrow> mat \<Rightarrow> mat \<Rightarrow> real \<Rightarrow> nat \<Rightarrow> nat \<Rightarrow> real" where
  "spec_grad_log_q nu N H u beta l j =
     spec_grad_q nu N H u (spec_s nu N beta) (spec_shat nu N beta) l j /
     spec_q nu N H u (spec_s nu N beta) (spec_shat nu N beta) l"

subsection \<open>\<^verbatim>\<open>_simulate_ito_step\<close>\<close>

text \<open>
  One step with \<^verbatim>\<open>pot_method = 2\<close>. The step draws \<^verbatim>\<open>np.random.randn(nu, N)\<close>; the model
  takes that draw as the argument \<open>R\<close>. \<^verbatim>\<open>dr**0.5\<close> is \<open>dr powr (1/2)\<close>. The quotients by
  \<^verbatim>\<open>1+b\<close> are quotients of Python numbers and raise when \<open>1 + b = 0\<close>; \<^verbatim>\<open>np.sqrt(f0)\<close> is not
  a number for negative \<open>f0\<close>.
\<close>

definition simulate_ito_step ::
  "mat \<Rightarrow> mat \<Rightarrow> mat \<Rightarrow> mat \<Rightarrow> mat \<Rightarrow> mat \<Rightarrow> real \<Rightarrow> real \<Rightarrow> real \<Rightarrow> py_error + (mat \<times> mat)" where
  "simulate_ito_step R Z Y H basis a f0 dr kde_bw_factor =
     (let b = f0 * dr / 4;
          Weiner = smult (dr powr (1 / 2)) R;
          dW = np_dot Weiner a;
          Zhalf = madd Z (smult (dr / 2) Y)
      in case get_L H (np_dot Zhalf (np_transpose basis)) kde_bw_factor of
           Inl e \<Rightarrow> Inl e
         | Inr pot \<Rightarrow>
             (let L = np_dot pot a
              in if 1 + b = 0 then Inl ZeroDivisionError
                 else if f0 < 0 then Inl NonFinite
                 else
                   (let Ynext = madd (madd (smult ((1 - b) / (1 + b)) Y)
                                           (smult (dr / (1 + b)) L))
                                     (smult (sqrt f0 / (1 + b)) dW);
                        Znext = madd Zhalf (smult (dr / 2) Ynext)
                    in Inr (Znext, Ynext))))"

text \<open>
  The discrete step in the words of the specification, entry by entry, for the draw
  \<open>R\<close>: \<open>spec_Zhalf\<close>, the argument \<open>Z\<^sub>h\<^sub>a\<^sub>l\<^sub>f g\<^sup>T\<close> of the gradient, \<open>L\<close>, \<open>dW\<close>, \<open>Y\<^sub>n\<^sub>e\<^sub>x\<^sub>t\<close> and
  \<open>Z\<^sub>n\<^sub>e\<^sub>x\<^sub>t\<close>.
\<close>

definition spec_Zhalf :: "mat \<Rightarrow> mat \<Rightarrow> real \<Rightarrow> nat \<Rightarrow> nat \<Rightarrow> real" where
  "spec_Zhalf Z Y dr i j = Z ! i ! j + (dr / 2) * Y ! i ! j"

definition spec_u :: "nat \<Rightarrow> nat \<Rightarrow> nat \<Rightarrow> mat \<Rightarrow> mat \<Rightarrow> mat \<Rightarrow> real \<Rightarrow> mat" where
  "spec_u nu N m Z Y g dr = mk_mat nu N (\<lambda>i k. \<Sum>j<m. spec_Zhalf Z Y dr i j * g ! k ! j)"

definition spec_L ::
  "nat \<Rightarrow> nat \<Rightarrow> nat \<Rightarrow> mat \<Rightarrow> mat \<Rightarrow> mat \<Rightarrow> mat \<Rightarrow> mat \<Rightarrow> real \<Rightarrow> real \<Rightarrow> nat \<Rightarrow> nat \<Rightarrow> real" where
  "spec_L nu N m Z Y H g a dr beta i j =
     (\<Sum>k<N. spec_grad_log_q nu N H (spec_u nu N m Z Y g dr) beta k i * a ! k ! j)"

definition spec_dW :: "nat \<Rightarrow> mat \<Rightarrow> mat \<Rightarrow> real \<Rightarrow> nat \<Rightarrow> nat \<Rightarrow> real" where
  "spec_dW N R a dr i j = sqrt dr * (\<Sum>k<N. R ! i ! k * a ! k ! j)"

definition spec_Ynext ::
  "nat \<Rightarrow> nat \<Rightarrow> nat \<Rightarrow> mat \<Rightarrow> mat \<Rightarrow> mat \<Rightarrow> mat \<Rightarrow> mat \<Rightarrow> mat \<Rightarrow> real \<Rightarrow> real \<Rightarrow> real \<Rightarrow>
   nat \<Rightarrow> nat \<Rightarrow> real" where
  "spec_Ynext nu N m R Z Y H g a f0 dr beta i j =
     (let b = f0 * dr / 4
      in ((1 - b) / (1 + b)) * Y ! i ! j
         + (dr / (1 + b)) * spec_L nu N m Z Y H g a dr beta i j
         + (sqrt f0 / (1 + b)) * spec_dW N R a dr i j)"

definition spec_Znext ::
  "nat \<Rightarrow> nat \<Rightarrow> nat \<Rightarrow> mat \<Rightarrow> mat \<Rightarrow> mat \<Rightarrow> mat \<Rightarrow> mat \<Rightarrow> mat \<Rightarrow> real \<Rightarrow> real \<Rightarrow> real \<Rightarrow>
   nat \<Rightarrow> nat \<Rightarrow> real" where
  "spec_Znext nu N m R Z Y H g a f0 dr beta i j =
     spec_Zhalf Z Y dr i j + (dr / 2) * spec_Ynext nu N m R Z Y H g a f0 dr beta i j"

subsection \<open>\<^verbatim>\<open>_get_dmaps_dim_from_epsilon\<close>, \<^verbatim>\<open>_get_dmaps_optimal_epsilon\<close>\<close>

text \<open>
  \<^verbatim>\<open>_get_dmaps_dim_from_epsilon(H, epsilon, kappa, L)\<close> calls \<^verbatim>\<open>_get_dmaps_basis\<close>, whose
  eigenvalues come from \<^verbatim>\<open>np.linalg.eigh\<close>. The data set and \<^verbatim>\<open>kappa\<close> are fixed during
  the search, so the model takes the map \<open>dmaps_eigvals\<close> from a bandwidth to the (flipped,
  descending) eigenvalues that \<^verbatim>\<open>_get_dmaps_basis\<close> returns for it, and applies the code's
  own dimension rule to them. The search passes \<^verbatim>\<open>dist_method\<close> on for the probe list only;
  the model is the search with the default \<^verbatim>\<open>dist_method='standard'\<close>, for which all its
  calls compute the same map.
\<close>

definition get_dmaps_dim_from_epsilon :: "(real \<Rightarrow> real list) \<Rightarrow> real \<Rightarrow> real \<Rightarrow> int" where
  "get_dmaps_dim_from_epsilon dmaps_eigvals epsilon L =
     get_dmaps_optimal_dimension (dmaps_eigvals epsilon) L"

definition epsilon_list :: "real list" where
  "epsilon_list = [1 / 10, 1, 2, 8, 16, 32, 64, 100, 10000]"

definition eps_for_m_target :: "real list" where
  "eps_for_m_target = [1, 10, 100, 1000, 10000]"

text \<open>\<^verbatim>\<open>np.argmin\<close>: the index of the first occurrence of the minimum.\<close>

definition np_argmin :: "int list \<Rightarrow> nat" where
  "np_argmin xs = length (takeWhile (\<lambda>x. x \<noteq> Min (set xs)) xs)"

text \<open>
  The \<^verbatim>\<open>for eps in epsilon_list[1:]\<close> loop with its \<^verbatim>\<open>break\<close>; \<open>m\<close> is the map from a
  bandwidth to the manifold dimension. The result is the pair of bounds.
\<close>

fun scan_bounds :: "(real \<Rightarrow> int) \<Rightarrow> int \<Rightarrow> real \<Rightarrow> real \<Rightarrow> real list \<Rightarrow> real \<times> real" where
  "scan_bounds m m_target lower_bound upper_bound [] = (lower_bound, upper_bound)"
| "scan_bounds m m_target lower_bound upper_bound (eps # rest) =
     (if m eps > m_target then scan_bounds m m_target eps upper_bound rest
      else (lower_bound, eps))"

text \<open>The loop \<^verbatim>\<open>while upper_bound - lower_bound > 0.5\<close>.\<close>

function bisect_bounds :: "(real \<Rightarrow> int) \<Rightarrow> int \<Rightarrow> real \<Rightarrow> real \<Rightarrow> real \<times> real" where
  "bisect_bounds m m_target lower_bound upper_bound =
     (if upper_bound - lower_bound > 1 / 2 then
        (let middle_bound = (lower_bound + upper_bound) / 2
         in if m middle_bound > m_target
            then bisect_bounds m m_target middle_bound upper_bound
            else bisect_bounds m m_target lower_bound middle_bound)
      else (lower_bound, upper_bound))"
  by pat_completeness auto
termination
proof (relation "measure (\<lambda>(m, m_target, lower_bound, upper_bound).
                   nat \<lceil>2 * (upper_bound - lower_bound)\<rceil>)")
  show "wf (measure (\<lambda>(m, m_target, lower_bound, upper_bound).
              nat \<lceil>2 * (upper_bound - lower_bound)\<rceil>))"
    by simp
next
  fix m :: "real \<Rightarrow> int" and m_target :: int and lower_bound upper_bound middle_bound :: real
  assume gap: "1 / 2 < upper_bound - lower_bound"
    and mid: "middle_bound = (lower_bound + upper_bound) / 2"
  have halves: "\<lceil>x\<rceil> < \<lceil>2 * x\<rceil>" if "1 / 2 < x" for x :: real
  proof (cases "x \<le> 1")
    case True
    then have "\<lceil>x\<rceil> = 1" using that by (intro ceiling_unique) simp_all
    moreover have "1 < \<lceil>2 * x\<rceil>" using that by (simp add: less_ceiling_iff)
    ultimately show ?thesis by simp
  next
    case False
    then have "real_of_int \<lceil>x\<rceil> < x + 1" "x + 1 < 2 * x" by linarith+
    then have "real_of_int \<lceil>x\<rceil> < 2 * x" by linarith
    then show ?thesis by (simp add: less_ceiling_iff)
  qed
  have pos: "0 < \<lceil>2 * (upper_bound - lower_bound)\<rceil>"
    using gap by (simp add: less_ceiling_iff)
  have e: "2 * (upper_bound - middle_bound) = upper_bound - lower_bound"
    "2 * (middle_bound - lower_bound) = upper_bound - lower_bound"
    using mid by (simp_all add: field_simps)
  have "nat \<lceil>upper_bound - lower_bound\<rceil> < nat \<lceil>2 * (upper_bound - lower_bound)\<rceil>"
    using halves[OF gap] pos by linarith
  then show "((m, m_target, middle_bound, upper_bound), (m, m_target, lower_bound, upper_bound))
          \<in> measure (\<lambda>(m, m_target, lower_bound, upper_bound).
                nat \<lceil>2 * (upper_bound - lower_bound)\<rceil>)"
    and "((m, m_target, lower_bound, middle_bound), (m, m_target, lower_bound, upper_bound))
          \<in> measure (\<lambda>(m, m_target, lower_bound, upper_bound).
                nat \<lceil>2 * (upper_bound - lower_bound)\<rceil>)"
    unfolding in_measure prod.case e by assumption+
qed

declare bisect_bounds.simps [simp del]

text \<open>
  The loop \<^verbatim>\<open>while m > m_target: lower_bound += 0.1; m = ...\<close>. Nothing in the code bounds
  the number of its iterations, so the loop is a partial function: \<open>None\<close> means that it
  does not return.
\<close>

partial_function (option) increase_lower :: "(real \<Rightarrow> int) \<Rightarrow> int \<Rightarrow> real \<Rightarrow> real option" where
  "increase_lower m m_target lower_bound =
     (if m lower_bound > m_target
      then increase_lower m m_target (lower_bound + 1 / 10)
      else Some lower_bound)"

text \<open>
  The search returns \<^verbatim>\<open>epsilon\<close> and \<^verbatim>\<open>m_target\<close>; the third component of the result, the
  table \<^verbatim>\<open>eps_vs_m\<close> of the points visited, is not modelled.
\<close>

definition get_dmaps_optimal_epsilon :: "(real \<Rightarrow> real list) \<Rightarrow> real \<Rightarrow> (real \<times> int) option" where
  "get_dmaps_optimal_epsilon dmaps_eigvals L =
     (let m = (\<lambda>eps. get_dmaps_dim_from_epsilon dmaps_eigvals eps L);
          m_target_list = map m eps_for_m_target;
          m_target = Min (set m_target_list);
          upper_bound = eps_for_m_target ! np_argmin m_target_list;
          lower_bound = epsilon_list ! 0;
          (lower_bound, upper_bound) =
             scan_bounds m m_target lower_bound upper_bound (tl epsilon_list);
          (lower_bound, upper_bound) = bisect_bounds m m_target lower_bound upper_bound
      in map_option (\<lambda>epsilon. (epsilon, m_target)) (increase_lower m m_target lower_bound))"

text \<open>
  The eigenvalues that the symmetric normalisation of \<^verbatim>\<open>_get_dmaps_basis\<close> has for the
  two-point data set \<open>{0, 1}\<close>: with \<open>k = exp (- 1 / \<epsilon>)\<close> the kernel is \<open>((1, k), (k, 1))\<close>, both
  degrees are \<open>1 + k\<close>, and the normalised kernel has the eigenvalues \<open>1\<close> and
  \<open>(1 - k) / (1 + k)\<close>.
\<close>

definition two_point_eigvals :: "real \<Rightarrow> real list" where
  "two_point_eigvals epsilon =
     [1, (1 - exp (- 1 / epsilon)) / (1 + exp (- 1 / epsilon))]"

text \<open>
  Three further eigenvalue maps on which the search is evaluated below. They are chosen
  for the dimensions they give, not computed from a data set; each list is descending,
  starts with \<open>1\<close> and has \<open>\<mu>\<^sub>1 = 1/2\<close>. With \<open>L = 1/10\<close> the first gives \<open>m = 2\<close> below
  \<open>\<epsilon> = 3\<close> and \<open>m = 1\<close> from there on; the second gives \<open>m = 1\<close> at \<open>\<epsilon> = 10\<close> only and \<open>m = 2\<close>
  elsewhere; the third gives \<open>m = 3\<close> below \<open>9999.999\<close>, \<open>m = 2\<close> from there up to \<open>10000.05\<close>
  and \<open>m = 1\<close> from \<open>10000.05\<close> on.
\<close>

definition step_eigvals :: "real \<Rightarrow> real list" where
  "step_eigvals epsilon = (if epsilon < 3 then [1, 1 / 2, 1 / 2] else [1, 1 / 2, 1 / 100])"

definition window_eigvals :: "real \<Rightarrow> real list" where
  "window_eigvals epsilon = (if epsilon = 10 then [1, 1 / 2, 1 / 100] else [1, 1 / 2, 1 / 2])"

definition late_drop_eigvals :: "real \<Rightarrow> real list" where
  "late_drop_eigvals epsilon =
     (if epsilon < 9999999 / 1000 then [1, 1 / 2, 1 / 2, 1 / 2]
      else if epsilon < 1000005 / 100 then [1, 1 / 2, 1 / 2, 1 / 100]
      else [1, 1 / 2, 1 / 100, 1 / 100])"

subsection \<open>\<^verbatim>\<open>_sample_projection\<close>, \<^verbatim>\<open>_inverse_sample_projection\<close>\<close>

text \<open>
  \<^verbatim>\<open>np.linalg.inv\<close> is a library function: the model takes it as the argument
  \<open>linalg_inv\<close>, which returns the inverse or the error the library raises for a singular
  matrix. \<^verbatim>\<open>g\<close> has shape \<open>(N, m)\<close>. The test on \<^verbatim>\<open>H.shape[1]\<close> transposes \<^verbatim>\<open>H\<close> when its
  number of columns is not \<open>N\<close>; \<^verbatim>\<open>np.dot\<close> raises when the shapes still do not fit.
\<close>

definition sample_projection ::
  "(mat \<Rightarrow> py_error + mat) \<Rightarrow> mat \<Rightarrow> mat \<Rightarrow> py_error + (mat \<times> mat)" where
  "sample_projection linalg_inv H g =
     (case linalg_inv (np_dot (np_transpose g) g) of
        Inl e \<Rightarrow> Inl e
      | Inr gtg_inv \<Rightarrow>
          (let a = np_dot g gtg_inv;
               H = (if ncols H \<noteq> nrows a then np_transpose H else H)
           in if ncols H \<noteq> nrows a then Inl ValueError
              else Inr (np_dot H a, a)))"

definition inverse_sample_projection :: "mat \<Rightarrow> mat \<Rightarrow> mat" where
  "inverse_sample_projection Z g = np_dot g (np_transpose Z)"

text \<open>
  What \<^verbatim>\<open>np.linalg.inv\<close> does on a matrix of shape \<open>(1, 1)\<close>, which is all that the examples
  with \<open>m = 1\<close> below ask of it; other shapes are outside this function.
\<close>

definition inv_1x1 :: "mat \<Rightarrow> py_error + mat" where
  "inv_1x1 M =
     (case M of
        [[x]] \<Rightarrow> if x = 0 then Inl LinAlgError else Inr [[1 / x]]
      | _ \<Rightarrow> Inl LinAlgError)"

section \<open>Properties\<close>

subsection \<open>Sample getter\<close>

lemma get_samples_positive:
  assumes "0 < k" "training d = Some tr" "augmented d = Some aug" "tr \<noteq> []"
  shows "get_samples d k =
           (if k * int (length tr) < int (length aug)
            then Inr (take (nat (k * int (length tr))) aug)
            else Inl TooManySamples)"
  using assms by (simp add: get_samples_def Let_def)

text \<open>
  Claim C10. With a training set of two rows and a pool of four rows, a request for
  \<open>k = 2\<close> samples asks for exactly the whole pool (\<open>k * N = P\<close>); the getter raises
  instead of returning the four rows, because it compares with \<open><\<close>.
\<close>

theorem get_samples_whole_pool_raises:
  "get_samples \<lparr>training = Some [[1], [2]],
                augmented = Some [[1], [2], [3], [4]]\<rparr> 2 = Inl TooManySamples"
  by (simp add: get_samples_def)

subsection \<open>Searching an index range\<close>

lemma find_upt_Some:
  "find P [lo..<hi] = Some i \<longleftrightarrow>
     lo \<le> i \<and> i < hi \<and> P i \<and> (\<forall>j. lo \<le> j \<and> j < i \<longrightarrow> \<not> P j)"
proof
  assume "find P [lo..<hi] = Some i"
  then obtain k where k: "k < hi - lo" "P ([lo..<hi] ! k)" "i = [lo..<hi] ! k"
      "\<forall>j<k. \<not> P ([lo..<hi] ! j)"
    by (auto simp: find_Some_iff)
  then have i: "i = lo + k" by simp
  have "\<not> P j" if "lo \<le> j" "j < i" for j
  proof -
    have "j - lo < k" using that i by arith
    with k(4) have "\<not> P ([lo..<hi] ! (j - lo))" by blast
    moreover have "j - lo < hi - lo" using \<open>j - lo < k\<close> k(1) by arith
    ultimately show ?thesis using that by simp
  qed
  with k i show "lo \<le> i \<and> i < hi \<and> P i \<and> (\<forall>j. lo \<le> j \<and> j < i \<longrightarrow> \<not> P j)"
    by auto
next
  assume a: "lo \<le> i \<and> i < hi \<and> P i \<and> (\<forall>j. lo \<le> j \<and> j < i \<longrightarrow> \<not> P j)"
  show "find P [lo..<hi] = Some i"
    unfolding find_Some_iff
  proof (intro exI[of _ "i - lo"] conjI allI impI)
    show "i - lo < length [lo..<hi]" using a by simp arith
    show "P ([lo..<hi] ! (i - lo))" using a by simp
    show "i = [lo..<hi] ! (i - lo)" using a by simp
    fix j assume j: "j < i - lo"
    then have "lo + j < hi" "lo + j < i" using a by arith+
    then show "\<not> P ([lo..<hi] ! j)" using a by simp
  qed
qed

lemma find_upt_None:
  "find P [lo..<hi] = None \<longleftrightarrow> (\<forall>j. lo \<le> j \<and> j < hi \<longrightarrow> \<not> P j)"
  by (auto simp: find_None_iff)

subsection \<open>Manifold dimension\<close>

lemma dimension_loop_find:
  "dimension_loop eig L as m =
     (case find (\<lambda>a. eig ! a / eig ! 1 < L) as of None \<Rightarrow> m | Some a \<Rightarrow> int a - 1)"
  by (induction as) (simp_all add: Let_def)

text \<open>
  Claim C3, as stated, fails: for the descending eigenvalues \<open>1, 1/2, 1/5, 1/100\<close> and
  \<open>L = 1/10\<close> the rule of the claim stops at \<open>i = 2\<close> (because \<open>\<mu>\<^sub>3 / \<mu>\<^sub>1 = 1/50 < L\<close>) and
  gives \<open>m = 1\<close>, while the code tests \<open>\<mu>\<^sub>2 / \<mu>\<^sub>1 = 2/5\<close> at \<open>a = 2\<close>, goes on to \<open>a = 3\<close>
  and returns \<open>m = 2\<close>.
\<close>

theorem dmaps_dimension_counterexample:
  "sorted (rev [1, 1/2, 1/5, 1/100 :: real]) \<and> [1, 1/2, 1/5, 1/100 :: real] ! 0 = 1 \<and>
   (0::real) < 1/10 \<and> (1::real)/10 < 1 \<and>
   spec_manifold_dimension [1, 1/2, 1/5, 1/100] (1/10) = Some 1 \<and>
   get_dmaps_optimal_dimension [1, 1/2, 1/5, 1/100] (1/10) = 2"
  by (simp add: spec_manifold_dimension_def get_dmaps_optimal_dimension_def upt_rec)

text \<open>
  Claim C3, amended: for descending eigenvalues with \<open>\<mu>\<^sub>0 = 1\<close>, \<open>\<mu>\<^sub>1 \<noteq> 0\<close> and a cutoff
  \<open>L\<close> in \<open>(0, 1)\<close>, the computed dimension is \<open>i - 1\<close> for the smallest \<open>i\<close> in
  \<open>2, \<dots>, N - 1\<close> with \<open>\<mu>\<^sub>i / \<mu>\<^sub>1 < L\<close> (the eigenvalue tested is \<open>\<mu>\<^sub>i\<close>, not \<open>\<mu>\<^sub>i\<^sub>+\<^sub>1\<close>), and
  \<open>N - 1\<close> when there is no such \<open>i\<close>.
\<close>

theorem dmaps_dimension_first_gap:
  assumes "2 \<le> length eigvalues" "eigvalues ! 0 = 1" "sorted (rev eigvalues)"
    "eigvalues ! 1 \<noteq> 0" "0 < L" "L < 1"
  shows "get_dmaps_optimal_dimension eigvalues L =
           (if \<exists>i. 2 \<le> i \<and> i < length eigvalues \<and> eigvalues ! i / eigvalues ! 1 < L
            then int (LEAST i. 2 \<le> i \<and> i < length eigvalues \<and>
                               eigvalues ! i / eigvalues ! 1 < L) - 1
            else int (length eigvalues) - 1)"
proof (cases "\<exists>i. 2 \<le> i \<and> i < length eigvalues \<and> eigvalues ! i / eigvalues ! 1 < L")
  case True
  let ?P = "\<lambda>a. eigvalues ! a / eigvalues ! 1 < L"
  let ?Q = "\<lambda>i. 2 \<le> i \<and> i < length eigvalues \<and> ?P i"
  from True obtain i0 where "?Q i0" ..
  define i where "i = (LEAST i. ?Q i)"
  have Qi: "?Q i" unfolding i_def using \<open>?Q i0\<close> by (rule LeastI)
  have "\<not> ?P j" if "2 \<le> j" "j < i" for j
  proof
    assume "?P j"
    with that Qi have "?Q j" by simp
    then have "i \<le> j" unfolding i_def by (rule Least_le)
    with that show False by simp
  qed
  with Qi have "find ?P [2..<length eigvalues] = Some i"
    by (simp add: find_upt_Some)
  then have r: "get_dmaps_optimal_dimension eigvalues L = int i - 1"
    by (simp add: get_dmaps_optimal_dimension_def dimension_loop_find)
  show ?thesis by (subst if_P[OF True]) (simp only: r i_def)
next
  case False
  let ?P = "\<lambda>a. eigvalues ! a / eigvalues ! 1 < L"
  from False have "find ?P [2..<length eigvalues] = None"
    by (simp add: find_upt_None)
  then have r: "get_dmaps_optimal_dimension eigvalues L = int (length eigvalues) - 1"
    by (simp add: get_dmaps_optimal_dimension_def dimension_loop_find)
  show ?thesis by (subst if_not_P[OF False]) (rule r)
qed

theorem dmaps_dimension_first_gap_witness:
  "2 \<le> length [1, 1/2, 1/5, 1/100 :: real] \<and> [1, 1/2, 1/5, 1/100 :: real] ! 0 = 1 \<and>
   sorted (rev [1, 1/2, 1/5, 1/100 :: real]) \<and> [1, 1/2, 1/5, 1/100 :: real] ! 1 \<noteq> 0 \<and>
   (0::real) < 1/10 \<and> (1::real)/10 < 1 \<and>
   (\<exists>i. 2 \<le> i \<and> i < length [1, 1/2, 1/5, 1/100 :: real] \<and>
        [1, 1/2, 1/5, 1/100 :: real] ! i / [1, 1/2, 1/5, 1/100] ! 1 < 1/10) \<and>
   get_dmaps_optimal_dimension [1, 1/2, 1/5, 1/100] (1/10) =
     int (LEAST i. 2 \<le> i \<and> i < length [1, 1/2, 1/5, 1/100 :: real] \<and>
                   [1, 1/2, 1/5, 1/100 :: real] ! i / [1, 1/2, 1/5, 1/100] ! 1 < 1/10) - 1"
proof -
  have ex: "\<exists>i. 2 \<le> i \<and> i < length [1, 1/2, 1/5, 1/100 :: real] \<and>
        [1, 1/2, 1/5, 1/100 :: real] ! i / [1, 1/2, 1/5, 1/100] ! 1 < 1/10"
    by (rule exI[of _ 3]) simp
  show ?thesis
    using dmaps_dimension_first_gap [of "[1, 1/2, 1/5, 1/100]" "1/10"] ex
    by simp
qed

subsection \<open>PCA truncation by cumulative energy\<close>

lemma cum_energy_loop_find:
  "cum_energy_loop ev T E is =
     (case find (\<lambda>i. sum_list (take i ev) / T > 1 - E) is of
        None \<Rightarrow> Inl UnboundLocalError
      | Some i \<Rightarrow> Inr (slice_from (int i - 1) ev))"
  by (induction "is") simp_all

lemma prefix_sum_mono:
  fixes ev :: "real list"
  assumes "\<forall>x\<in>set ev. 0 \<le> x" "i \<le> j"
  shows "sum_list (take i ev) \<le> sum_list (take j ev)"
proof -
  have "take j ev = take i ev @ take (j - i) (drop i ev)"
    using assms(2) by (metis le_add_diff_inverse take_add)
  moreover have "0 \<le> sum_list (take (j - i) (drop i ev))"
    using assms(1) by (intro sum_list_nonneg) (auto dest!: in_set_takeD in_set_dropD)
  ultimately show ?thesis by simp
qed

lemma top_sum_prefix:
  fixes ev :: "real list"
  shows "top_sum ev nu = sum_list ev - sum_list (take (length ev - nu) ev)"
proof -
  have "sum_list (take (length ev - nu) ev @ drop (length ev - nu) ev) = sum_list ev"
    by simp
  then show ?thesis unfolding top_sum_def sum_list_append by simp
qed

text \<open>
  What \<open>spec_cum_energy_dim\<close> returns is the least \<open>\<nu>\<close> whose top-\<open>\<nu>\<close> share reaches \<open>E\<close>.
\<close>

lemma spec_cum_energy_dim_least:
  assumes "spec_cum_energy_dim eigvals E = Some nu"
  shows "E \<le> top_sum eigvals nu / sum_list eigvals \<and>
         (\<forall>k<nu. \<not> E \<le> top_sum eigvals k / sum_list eigvals)"
  using assms unfolding spec_cum_energy_dim_def find_upt_Some by auto

text \<open>
  Claim C5. For ascending non-negative eigenvalues with positive total and an energy
  threshold \<open>E\<close> in \<open>(0, 1]\<close>, the tail test of the code breaks, and what it retains is
  the last \<open>\<nu>\<close> entries of the list, for the smallest \<open>\<nu>\<close> such that the top \<open>\<nu>\<close>
  eigenvalues carry at least the share \<open>E\<close> of the total: the two rules agree.
\<close>

theorem cum_energy_tail_test:
  assumes "sorted eigvals" "\<forall>x\<in>set eigvals. 0 \<le> x" "0 < sum_list eigvals" "0 < E" "E \<le> 1"
  shows "\<exists>nu. 1 \<le> nu \<and> nu \<le> length eigvals \<and> spec_cum_energy_dim eigvals E = Some nu \<and>
           pca_cum_energy eigvals E = Inr (drop (length eigvals - nu) eigvals)"
proof -
  define n where "n = length eigvals"
  define T where "T = sum_list eigvals"
  define pre where "pre i = sum_list (take i eigvals)" for i
  define P where "P i \<longleftrightarrow> pre i / T > 1 - E" for i
  have T: "0 < T" using assms(3) by (simp add: T_def)
  have pre_mono: "pre i \<le> pre j" if "i \<le> j" for i j
    unfolding pre_def using assms(2) that by (rule prefix_sum_mono)
  have P_mono: "P j" if "P i" "i \<le> j" for i j
  proof -
    have "pre i / T \<le> pre j / T" using pre_mono[OF that(2)] T by (simp add: divide_right_mono)
    with that(1) show ?thesis unfolding P_def by linarith
  qed
  have P0: "\<not> P 0" using assms(5) by (simp add: P_def pre_def)
  have Pn: "P n" using assms(4) T by (simp add: P_def pre_def n_def T_def)
  define i0 where "i0 = (LEAST i. P i)"
  have Pi0: "P i0" unfolding i0_def using Pn by (rule LeastI)
  have i0_le: "i0 \<le> n" unfolding i0_def using Pn by (rule Least_le)
  have i0_pos: "1 \<le> i0" using Pi0 P0 by (cases i0) auto
  have below: "\<not> P j" if "j < i0" for j
    using that not_less_Least unfolding i0_def by blast
  have find_code: "find P [0..<n + 1] = Some i0"
    unfolding find_upt_Some using Pi0 i0_le below by auto
  have slice: "slice_from (int i0 - 1) eigvals = drop (i0 - 1) eigvals"
    using i0_pos by (simp add: slice_from_def nat_diff_distrib')
  have P_eq: "P = (\<lambda>i. sum_list (take i eigvals) / sum_list eigvals > 1 - E)"
    by (simp add: P_def pre_def T_def fun_eq_iff)
  have code: "pca_cum_energy eigvals E = Inr (drop (i0 - 1) eigvals)"
    unfolding pca_cum_energy_def cum_energy_loop_find Let_def
    using find_code slice unfolding P_eq n_def by simp
  define nu where "nu = n + 1 - i0"
  have nu: "1 \<le> nu" "nu \<le> n" "n - nu = i0 - 1"
    using i0_pos i0_le by (simp_all add: nu_def)
  define Q where "Q k \<longleftrightarrow> E \<le> top_sum eigvals k / T" for k
  have Q_iff: "Q k \<longleftrightarrow> \<not> P (n - k)" for k
  proof -
    have "top_sum eigvals k / T = 1 - pre (n - k) / T"
      using T by (simp add: top_sum_prefix pre_def n_def T_def diff_divide_distrib)
    then show ?thesis unfolding Q_def P_def by linarith
  qed
  have Qnu: "Q nu" using below[of "i0 - 1"] i0_pos nu by (simp add: Q_iff)
  have Qbelow: "\<not> Q k" if "k < nu" for k
  proof -
    have "i0 \<le> n - k" using that nu by arith
    from P_mono[OF Pi0 this] show ?thesis by (simp add: Q_iff)
  qed
  have "find Q [0..<n + 1] = Some nu"
    unfolding find_upt_Some using Qnu Qbelow nu by auto
  moreover have "Q = (\<lambda>k. E \<le> top_sum eigvals k / sum_list eigvals)"
    by (simp add: Q_def T_def fun_eq_iff)
  ultimately have spec: "spec_cum_energy_dim eigvals E = Some nu"
    unfolding spec_cum_energy_dim_def n_def by simp
  from nu spec code show ?thesis unfolding n_def by metis
qed

theorem cum_energy_tail_test_witness:
  "sorted [1, 2, 7 :: real] \<and> 0 < sum_list [1, 2, 7 :: real] \<and> (0::real) < 7 / 10 \<and>
   (7::real) / 10 \<le> 1 \<and>
   spec_cum_energy_dim [1, 2, 7] (7 / 10) = Some 1 \<and>
   pca_cum_energy [1, 2, 7] (7 / 10) = Inr [7]"
  using cum_energy_tail_test [of "[1, 2, 7]" "7 / 10"]
  by (auto simp: spec_cum_energy_dim_def top_sum_def upt_rec)

subsection \<open>Scaling round trip\<close>

lemma ncols_is_mat: "is_mat N n X \<Longrightarrow> 0 < N \<Longrightarrow> ncols X = n"
  by (cases X) (auto simp: is_mat_def ncols_def)

lemma row_roundtrip:
  fixes r :: vec
  assumes "length r = n" "length c = n" "length s = n" "\<forall>x\<in>set s. x \<noteq> 0"
  shows "map2 (+) (map2 (*) (map2 (/) (map2 (-) r c) s) s) c = r"
proof (rule nth_equalityI)
  show "length (map2 (+) (map2 (*) (map2 (/) (map2 (-) r c) s) s) c) = length r"
    using assms by simp
next
  fix j assume "j < length (map2 (+) (map2 (*) (map2 (/) (map2 (-) r c) s) s) c)"
  then have j: "j < n" using assms by simp
  then have "s ! j \<noteq> 0" using assms(3,4) by (metis nth_mem)
  then show "map2 (+) (map2 (*) (map2 (/) (map2 (-) r c) s) s) c ! j = r ! j"
    using j assms by simp
qed

lemma broadcast_roundtrip:
  assumes "is_mat N n X" "length c = n" "length s = n" "\<forall>x\<in>set s. x \<noteq> 0"
  shows "inverse_scale (broadcast (/) (broadcast (-) X c) s) c s = X"
proof -
  have "map2 (+) (map2 (*) (map2 (/) (map2 (-) r c) s) s) c = r" if "r \<in> set X" for r
    using that assms by (intro row_roundtrip[of r n]) (auto simp: is_mat_def)
  then show ?thesis
    by (auto simp: inverse_scale_def broadcast_def intro!: map_idI)
qed

lemma constant_column:
  assumes "is_mat N n X" "0 < N" "\<forall>i<N. X ! i ! j = X ! 0 ! j"
  shows "column X j = replicate N (X ! 0 ! j)"
proof (rule nth_equalityI)
  show "length (column X j) = length (replicate N (X ! 0 ! j))"
    using assms(1) by (simp add: column_def is_mat_def)
next
  fix i assume "i < length (column X j)"
  then have i: "i < N" using assms(1) by (simp add: column_def is_mat_def)
  with assms(3) have "X ! i ! j = X ! 0 ! j" by blast
  then show "column X j ! i = replicate N (X ! 0 ! j) ! i"
    using i assms(1) by (simp add: column_def is_mat_def)
qed

lemma np_mean_replicate: "0 < N \<Longrightarrow> np_mean (replicate N c) = c"
  by (simp add: np_mean_def sum_list_replicate)

lemma np_std_replicate: "0 < N \<Longrightarrow> np_std (replicate N c) = 0"
  by (simp add: np_std_def np_mean_replicate)

text \<open>
  Claim C7. For every real matrix \<open>X\<close> with at least one row and either scaling mode,
  the forward scaler succeeds and the inverse scaler applied to its three results
  returns \<open>X\<close>; a constant column gets the scale \<open>1\<close>.
\<close>

theorem scale_roundtrip:
  assumes "is_mat N n X" "0 < N"
    "scaling_method = ''MinMax'' \<or> scaling_method = ''Normalization''"
  shows "\<exists>X_scaled centers scales.
           scale scaling_method X = Inr (X_scaled, centers, scales) \<and>
           inverse_scale X_scaled centers scales = X \<and>
           (\<forall>j<n. (\<forall>i<N. X ! i ! j = X ! 0 ! j) \<longrightarrow> scales ! j = 1)"
proof -
  have ne: "X \<noteq> []" using assms(1,2) by (auto simp: is_mat_def)
  have nc: "ncols X = n" using assms(1,2) by (rule ncols_is_mat)
  from assms(3) show ?thesis
  proof
    assume m: "scaling_method = ''MinMax''"
    define Xmin where "Xmin = map (\<lambda>j. Min (set (column X j))) [0..<n]"
    define Xmax where "Xmax = map (\<lambda>j. Max (set (column X j))) [0..<n]"
    define s where "s = map (\<lambda>s. if s = 0 then 1 else s) (map2 (-) Xmax Xmin)"
    have len: "length Xmin = n" "length s = n" by (simp_all add: Xmin_def Xmax_def s_def)
    have nz: "\<forall>x\<in>set s. x \<noteq> 0" by (auto simp: s_def)
    have eq: "scale scaling_method X = Inr (broadcast (/) (broadcast (-) X Xmin) s, Xmin, s)"
      using ne by (simp add: m scale_def scaleMinMax_def Let_def nc Xmin_def Xmax_def s_def)
    have rt: "inverse_scale (broadcast (/) (broadcast (-) X Xmin) s) Xmin s = X"
      using assms(1) len nz by (rule broadcast_roundtrip)
    have const: "s ! j = 1" if "j < n" "\<forall>i<N. X ! i ! j = X ! 0 ! j" for j
    proof -
      have "column X j = replicate N (X ! 0 ! j)"
        using assms(1,2) that(2) by (rule constant_column)
      then have "set (column X j) = {X ! 0 ! j}" using assms(2) by simp
      then show ?thesis using that(1) by (simp add: s_def Xmin_def Xmax_def)
    qed
    from eq rt const show ?thesis by blast
  next
    assume m: "scaling_method = ''Normalization''"
    define means where "means = map (\<lambda>j. np_mean (column X j)) [0..<n]"
    define s where "s = map (\<lambda>s. if s = 0 then 1 else s) (map (\<lambda>j. np_std (column X j)) [0..<n])"
    have len: "length means = n" "length s = n" by (simp_all add: means_def s_def)
    have nz: "\<forall>x\<in>set s. x \<noteq> 0" by (auto simp: s_def)
    have eq: "scale scaling_method X = Inr (broadcast (/) (broadcast (-) X means) s, means, s)"
      using ne by (simp add: m scale_def scaleNormalize_def Let_def nc means_def s_def)
    have rt: "inverse_scale (broadcast (/) (broadcast (-) X means) s) means s = X"
      using assms(1) len nz by (rule broadcast_roundtrip)
    have const: "s ! j = 1" if "j < n" "\<forall>i<N. X ! i ! j = X ! 0 ! j" for j
    proof -
      have "column X j = replicate N (X ! 0 ! j)"
        using assms(1,2) that(2) by (rule constant_column)
      then have "np_std (column X j) = 0" using assms(2) by (simp add: np_std_replicate)
      then show ?thesis using that(1) by (simp add: s_def)
    qed
    from eq rt const show ?thesis by blast
  qed
qed


theorem scale_roundtrip_witness:
  "is_mat 2 2 [[1, 5], [3, 5]] \<and> (0::nat) < 2 \<and>
   scale ''MinMax'' [[1, 5], [3, 5]] = Inr ([[0, 0], [1, 0]], [1, 5], [2, 1]) \<and>
   inverse_scale [[0, 0], [1, 0]] [1, 5] [2, 1] = [[1, 5], [3, 5]]"
  using scale_roundtrip [of 2 2 "[[1, 5], [3, 5]]" "''MinMax''"]
  by (simp add: is_mat_def scale_def scaleMinMax_def ncols_def column_def broadcast_def upt_rec inverse_scale_def)

subsection \<open>Conditioning weights\<close>


lemma sum_list_divide:
  fixes xs :: "real list"
  shows "sum_list (map (\<lambda>x. x / c) xs) = sum_list xs / c"
  by (induction xs) (simp_all add: add_divide_distrib)

lemma sum_list_positive:
  fixes xs :: "real list"
  assumes "xs \<noteq> []" "\<forall>x\<in>set xs. 0 < x"
  shows "0 < sum_list xs"
  using assms by (induction xs) (auto intro: add_pos_nonneg sum_list_nonneg less_imp_le)

lemma normalised_weights:
  fixes es :: "real list"
  assumes "es \<noteq> []"
  defines "d \<equiv> map (\<lambda>e. exp (e - Max (set es))) es"
  shows "length (map (\<lambda>x. x / sum_list d) d) = length es"
    and "\<forall>a\<in>set (map (\<lambda>x. x / sum_list d) d). 0 \<le> a"
    and "sum_list (map (\<lambda>x. x / sum_list d) d) = 1"
proof -
  have pos: "0 < sum_list d"
    using assms(1) by (intro sum_list_positive) (auto simp: d_def)
  show "length (map (\<lambda>x. x / sum_list d) d) = length es" by (simp add: d_def)
  show "\<forall>a\<in>set (map (\<lambda>x. x / sum_list d) d). 0 \<le> a"
    using pos by (auto simp: d_def)
  show "sum_list (map (\<lambda>x. x / sum_list d) d) = 1"
    using pos by (simp add: sum_list_divide)
qed

text \<open>
  Claim C9, as stated, fails: when a column of \<open>W\<close> is constant (here both samples have
  the value \<open>5\<close>) its standard deviation is zero, the code divides by it, and no weight
  returned is a number; the weights are then neither non-negative nor of sum \<open>1\<close>.
\<close>

theorem conditional_weights_counterexample:
  "is_mat 2 1 [[5], [5]] \<and> length [5 :: real] = 1 \<and> (0::real) < 1 \<and>
   get_conditional_weights [[5], [5]] [5] 1 = Inl NonFinite"
  by (simp add: is_mat_def get_conditional_weights_def ncols_def column_def np_std_def
      np_mean_def)

text \<open>
  Claim C9, amended: for every \<open>W\<close> of shape \<open>N \<times> n\<^sub>w\<close> with \<open>N \<ge> 1\<close> in which no column is
  constant (every column has a non-zero standard deviation), every query point \<open>w\<^sub>0\<close> of
  length \<open>n\<^sub>w\<close> and every bandwidth \<open>s\<^sub>w > 0\<close>, the code returns \<open>N\<close> weights that are
  non-negative and sum to exactly \<open>1\<close>.
\<close>

theorem conditional_weights_normalised:
  assumes "is_mat N nw W" "0 < N" "length w0 = nw" "0 < sw"
    "\<forall>j<nw. np_std (column W j) \<noteq> 0"
  shows "\<exists>alpha. get_conditional_weights W w0 sw = Inr alpha \<and> length alpha = N \<and>
           (\<forall>a\<in>set alpha. 0 \<le> a) \<and> sum_list alpha = 1"
proof -
  have ne: "W \<noteq> []" using assms(1,2) by (auto simp: is_mat_def)
  have nc: "ncols W = nw" using assms(1,2) by (rule ncols_is_mat)
  define w_std where "w_std = map (\<lambda>j. np_std (column W j)) [0..<nw]"
  define es where "es = map (\<lambda>r. - 1 / (2 * sw\<^sup>2) * (np_norm r)\<^sup>2)
                              (broadcast (/) (broadcast (-) W w0) w_std)"
  define d where "d = map (\<lambda>e. exp (e - Max (set es))) es"
  have nz: "0 \<notin> set w_std" using assms(5) by (auto simp: w_std_def)
  have len: "length es = N" using assms(1) by (simp add: es_def broadcast_def is_mat_def)
  then have es_ne: "es \<noteq> []" using assms(2) by auto
  have eq: "get_conditional_weights W w0 sw = Inr (map (\<lambda>x. x / sum_list d) d)"
    unfolding get_conditional_weights_def Let_def nc d_def es_def w_std_def
    using ne nz[unfolded w_std_def] assms(4) by simp
  from normalised_weights[OF es_ne] len eq show ?thesis
    unfolding d_def by blast
qed

theorem conditional_weights_normalised_witness:
  "is_mat 2 1 [[0], [2]] \<and> (0::nat) < 2 \<and> length [0 :: real] = 1 \<and> (0::real) < 1 \<and>
   np_std (column [[0], [2]] 0) \<noteq> 0 \<and>
   (\<exists>alpha. get_conditional_weights [[0], [2]] [0] 1 = Inr alpha \<and> length alpha = 2 \<and>
           sum_list alpha = 1)"
  using conditional_weights_normalised [of 2 1 "[[0], [2]]" "[0]" 1]
  by (auto simp: is_mat_def column_def np_std_def np_mean_def)

subsection \<open>Matrices built from their entries\<close>

lemma mk_mat_nth [simp]: "i < nr \<Longrightarrow> j < nc \<Longrightarrow> mk_mat nr nc f ! i ! j = f i j"
  by (simp add: mk_mat_def)

lemma mk_mat_row: "i < nr \<Longrightarrow> mk_mat nr nc f ! i = map (f i) [0..<nc]"
  by (simp add: mk_mat_def)

lemma length_mk_mat [simp]: "length (mk_mat nr nc f) = nr"
  by (simp add: mk_mat_def)

lemma is_mat_mk_mat [simp]: "is_mat nr nc (mk_mat nr nc f)"
  by (auto simp: is_mat_def mk_mat_def)

lemma nrows_mk_mat [simp]: "nrows (mk_mat nr nc f) = nr"
  by (simp add: nrows_def)

lemma ncols_mk_mat [simp]: "0 < nr \<Longrightarrow> ncols (mk_mat nr nc f) = nc"
  by (simp add: ncols_def mk_mat_def upt_conv_Cons)

lemma mk_mat_cong:
  "(\<And>i j. i < nr \<Longrightarrow> j < nc \<Longrightarrow> f i j = g i j) \<Longrightarrow> mk_mat nr nc f = mk_mat nr nc g"
  by (simp add: mk_mat_def)

lemma is_mat_row: "is_mat nr nc A \<Longrightarrow> i < nr \<Longrightarrow> length (A ! i) = nc"
  by (simp add: is_mat_def)

lemma mat_eta: "is_mat nr nc A \<Longrightarrow> A = mk_mat nr nc (\<lambda>i j. A ! i ! j)"
  unfolding mk_mat_def is_mat_def
  by (intro nth_equalityI) (auto simp: list_eq_iff_nth_eq)

lemma nrows_is_mat: "is_mat nr nc A \<Longrightarrow> nrows A = nr"
  by (simp add: is_mat_def nrows_def)

lemma np_transpose_mk_mat:
  assumes "0 < nr"
  shows "np_transpose (mk_mat nr nc f) = mk_mat nc nr (\<lambda>i j. f j i)"
proof -
  have "np_transpose (mk_mat nr nc f) = mk_mat nc nr (\<lambda>i j. mk_mat nr nc f ! j ! i)"
    using assms by (simp add: np_transpose_def)
  also have "\<dots> = mk_mat nc nr (\<lambda>i j. f j i)"
    by (rule mk_mat_cong) simp
  finally show ?thesis .
qed

lemma np_dot_mk_mat:
  assumes "0 < n" "0 < k"
  shows "np_dot (mk_mat n k f) (mk_mat k m g) = mk_mat n m (\<lambda>i j. \<Sum>l<k. f i l * g l j)"
proof -
  have "np_dot (mk_mat n k f) (mk_mat k m g) =
          mk_mat n m (\<lambda>i j. \<Sum>l<k. mk_mat n k f ! i ! l * mk_mat k m g ! l ! j)"
    using assms by (simp add: np_dot_def)
  also have "\<dots> = mk_mat n m (\<lambda>i j. \<Sum>l<k. f i l * g l j)"
    by (rule mk_mat_cong) (auto intro!: sum.cong)
  finally show ?thesis .
qed

lemma smult_mk_mat: "smult c (mk_mat nr nc f) = mk_mat nr nc (\<lambda>i j. c * f i j)"
  by (simp add: smult_def mk_mat_def)

lemma madd_mk_mat: "madd (mk_mat nr nc f) (mk_mat nr nc g) = mk_mat nr nc (\<lambda>i j. f i j + g i j)"
  by (auto simp: madd_def mk_mat_def intro!: nth_equalityI)

lemma broadcast_mk_mat:
  "length v = nc \<Longrightarrow> broadcast f (mk_mat nr nc g) v = mk_mat nr nc (\<lambda>i j. f (g i j) (v ! j))"
  by (auto simp: broadcast_def mk_mat_def intro!: nth_equalityI)

lemma column_mk_mat: "j < nc \<Longrightarrow> column (mk_mat nr nc f) j = map (\<lambda>i. f i j) [0..<nr]"
  by (simp add: column_def mk_mat_def)

lemma sum_list_upt: "sum_list (map f [0..<n]) = (\<Sum>k<n. f k)"
  by (induction n) simp_all

lemma np_norm_sq: "(np_norm xs)\<^sup>2 = sum_list (map (\<lambda>x. x\<^sup>2) xs)"
proof -
  have "0 \<le> sum_list (map (\<lambda>x. x\<^sup>2) xs)"
    by (rule sum_list_nonneg) auto
  then show ?thesis by (simp add: np_norm_def)
qed

subsection \<open>The gradient of the log-density\<close>

lemma map2_same: "map2 F (map f xs) (map g xs) = map (\<lambda>x. F (f x) (g x)) xs"
  by (induction xs) simp_all

lemma map_mk_mat: "map F (mk_mat nr nc f) = map (\<lambda>i. F (map (f i) [0..<nc])) [0..<nr]"
  by (simp add: mk_mat_def)

lemma map_upt_cong: "(\<And>i. i < n \<Longrightarrow> f i = g i) \<Longrightarrow> map f [0..<n] = map g [0..<n]"
  by simp

lemma get_L_mk_mat:
  fixes h uu :: "nat \<Rightarrow> nat \<Rightarrow> real"
  assumes "0 < nu" "0 < N" "0 < M" "beta \<noteq> 0"
  defines "s \<equiv> spec_s nu N beta"
  defines "shat \<equiv> spec_shat nu N beta"
  defines "r \<equiv> \<lambda>k l j. h j k * shat / s - uu j l"
  defines "w \<equiv> \<lambda>k l. exp ((- 1 / (2 * shat\<^sup>2)) * (\<Sum>j<nu. (r k l j)\<^sup>2))"
  shows "get_L (mk_mat nu N h) (mk_mat nu M uu) beta =
           Inr (mk_mat nu M (\<lambda>j l. (\<Sum>k<N. r k l j * w k l) / shat\<^sup>2 / real N /
                                     ((\<Sum>k<N. w k l) / real N)))"
proof -
  have s_nz: "s \<noteq> 0"
    using assms(1,2,4) by (simp add: s_def spec_s_def)
  have scaled: "map (map (\<lambda>x. x * shat / s)) (mk_mat nu N h) = mk_mat nu N (\<lambda>j k. h j k * shat / s)"
    by (simp add: mk_mat_def)
  have tH: "np_transpose (mk_mat nu N (\<lambda>j k. h j k * shat / s)) = mk_mat N nu (\<lambda>k j. h j k * shat / s)"
    using assms(1) by (rule np_transpose_mk_mat)
  have tu: "np_transpose (mk_mat nu M uu) = mk_mat M nu (\<lambda>l j. uu j l)"
    using assms(1) by (rule np_transpose_mk_mat)
  define D where "D l = mk_mat nu N (\<lambda>j k. r k l j)" for l
  have dist: "map (\<lambda>x. np_transpose (broadcast (-) (mk_mat N nu (\<lambda>k j. h j k * shat / s)) x))
                  (mk_mat M nu (\<lambda>l j. uu j l)) = map D [0..<M]"
    unfolding map_mk_mat
  proof (rule map_upt_cong)
    fix l assume "l < M"
    have "broadcast (-) (mk_mat N nu (\<lambda>k j. h j k * shat / s)) (map (\<lambda>j. uu j l) [0..<nu])
            = mk_mat N nu (\<lambda>k j. h j k * shat / s - map (\<lambda>j. uu j l) [0..<nu] ! j)"
      by (rule broadcast_mk_mat) simp
    also have "\<dots> = mk_mat N nu (\<lambda>k j. r k l j)"
      by (rule mk_mat_cong) (simp add: r_def)
    finally show "np_transpose (broadcast (-) (mk_mat N nu (\<lambda>k j. h j k * shat / s))
                     (map (\<lambda>j. uu j l) [0..<nu])) = D l"
      using assms(2) by (simp add: np_transpose_mk_mat D_def)
  qed
  have norms: "map (\<lambda>D. map (\<lambda>k. exp ((- 1 / (2 * shat\<^sup>2)) * (np_norm (column D k))\<^sup>2))
                              [0..<ncols D]) (map D [0..<M])
                 = map (\<lambda>l. map (\<lambda>k. w k l) [0..<N]) [0..<M]"
    unfolding map_map comp_def
  proof (rule map_upt_cong)
    fix l assume "l < M"
    have nc: "ncols (D l) = N" using assms(1) by (simp add: D_def)
    have "exp ((- 1 / (2 * shat\<^sup>2)) * (np_norm (column (D l) k))\<^sup>2) = w k l" if "k < N" for k
      using that by (simp add: D_def column_mk_mat np_norm_sq w_def comp_def sum_list_upt)
    then show "map (\<lambda>k. exp ((- 1 / (2 * shat\<^sup>2)) * (np_norm (column (D l) k))\<^sup>2)) [0..<ncols (D l)]
                 = map (\<lambda>k. w k l) [0..<N]"
      unfolding nc by (intro map_upt_cong)
  qed
  have q_list: "map (\<lambda>w. sum_list w / real N) (map (\<lambda>l. map (\<lambda>k. w k l) [0..<N]) [0..<M])
                  = map (\<lambda>l. (\<Sum>k<N. w k l) / real N) [0..<M]"
    by (simp add: comp_def sum_list_upt)
  have product: "map2 np_dot_vec (map D [0..<M]) (map (\<lambda>l. map (\<lambda>k. w k l) [0..<N]) [0..<M])
                   = map (\<lambda>l. map (\<lambda>j. \<Sum>k<N. r k l j * w k l) [0..<nu]) [0..<M]"
    unfolding map2_same
  proof (rule map_upt_cong)
    fix l assume "l < M"
    have nc: "ncols (D l) = N" "nrows (D l) = nu" using assms(1) by (simp_all add: D_def)
    show "np_dot_vec (D l) (map (\<lambda>k. w k l) [0..<N]) = map (\<lambda>j. \<Sum>k<N. r k l j * w k l) [0..<nu]"
      unfolding np_dot_vec_def nc
      by (rule map_upt_cong) (auto simp: D_def intro!: sum.cong)
  qed
  have dq_list: "map (map (\<lambda>p. p / shat\<^sup>2 / real N))
                     (map (\<lambda>l. map (\<lambda>j. \<Sum>k<N. r k l j * w k l) [0..<nu]) [0..<M])
                   = map (\<lambda>l. map (\<lambda>j. (\<Sum>k<N. r k l j * w k l) / shat\<^sup>2 / real N) [0..<nu]) [0..<M]"
    by (simp add: comp_def)
  have pot: "map2 (\<lambda>dq q. map (\<lambda>d. d / q) dq)
               (map (\<lambda>l. map (\<lambda>j. (\<Sum>k<N. r k l j * w k l) / shat\<^sup>2 / real N) [0..<nu]) [0..<M])
               (map (\<lambda>l. (\<Sum>k<N. w k l) / real N) [0..<M])
             = mk_mat M nu (\<lambda>l j. (\<Sum>k<N. r k l j * w k l) / shat\<^sup>2 / real N /
                                     ((\<Sum>k<N. w k l) / real N))"
    unfolding map2_same by (simp add: mk_mat_def comp_def)
  have "get_L (mk_mat nu N h) (mk_mat nu M uu) beta =
          Inr (np_transpose (mk_mat M nu (\<lambda>l j. (\<Sum>k<N. r k l j * w k l) / shat\<^sup>2 / real N /
                                     ((\<Sum>k<N. w k l) / real N))))"
    unfolding get_L_def Let_def
    using assms(1,2) s_nz
    unfolding nrows_mk_mat ncols_mk_mat[OF assms(1)] s_def[symmetric, unfolded spec_s_def]
      shat_def[symmetric, unfolded spec_shat_def spec_s_def, folded s_def[unfolded spec_s_def]]
    unfolding scaled tH tu dist norms q_list product dq_list pot
    by simp
  then show ?thesis using assms(3) by (simp add: np_transpose_mk_mat)
qed

lemma get_L_spec:
  assumes "is_mat nu N H" "is_mat nu M u" "0 < nu" "0 < N" "0 < M" "0 < beta"
  shows "get_L H u beta = Inr (mk_mat nu M (\<lambda>j l. spec_grad_log_q nu N H u beta l j))"
proof -
  have H: "H = mk_mat nu N (\<lambda>j k. H ! j ! k)" using assms(1) by (rule mat_eta)
  have u: "u = mk_mat nu M (\<lambda>j l. u ! j ! l)" using assms(2) by (rule mat_eta)
  have "get_L (mk_mat nu N (\<lambda>j k. H ! j ! k)) (mk_mat nu M (\<lambda>j l. u ! j ! l)) beta =
          Inr (mk_mat nu M (\<lambda>j l. spec_grad_log_q nu N H u beta l j))"
    using assms(3-6)
    by (subst get_L_mk_mat)
       (simp_all add: spec_grad_log_q_def spec_grad_q_def spec_q_def spec_w_def spec_r_def
          mult.commute)
  then show ?thesis using H u by simp
qed


text \<open>
  Claim C2. For \<open>H\<close> of shape \<open>\<nu> \<times> N\<close>, \<open>u\<close> of shape \<open>\<nu> \<times> M\<close> (all dimensions positive) and
  a bandwidth factor \<open>\<beta> > 0\<close>, method 2 of the gradient routine returns the \<open>\<nu> \<times> M\<close>
  matrix whose entry \<open>[j, l]\<close> is component \<open>j\<close> of \<open>\<nabla>q\<^sub>l / q\<^sub>l\<close>, with \<open>s\<close>, \<open>\<^bold>s\<close>-hat, \<open>r\<close>, \<open>w\<close>,
  \<open>q\<close> and \<open>\<nabla>q\<close> as the specification defines them.
\<close>

theorem get_L_gradient_log_density:
  assumes "is_mat nu N H" "is_mat nu M u" "0 < nu" "0 < N" "0 < M" "0 < beta"
  shows "get_L H u beta = Inr (mk_mat nu M (\<lambda>j l. spec_grad_log_q nu N H u beta l j))"
  using assms by (rule get_L_spec)

theorem get_L_gradient_log_density_witness:
  "is_mat 2 1 [[1], [0]] \<and> is_mat 2 1 [[0], [0]] \<and> (0::nat) < 2 \<and> (0::nat) < 1 \<and> (0::real) < 1 \<and>
   get_L [[1], [0]] [[0], [0]] 1 =
     Inr (mk_mat 2 1 (\<lambda>j l. spec_grad_log_q 2 1 [[1], [0]] [[0], [0]] 1 l j))"
  using get_L_gradient_log_density [of 2 1 "[[1], [0]]" 1 "[[0], [0]]" 1]
  by (simp add: is_mat_def)

subsection \<open>The ISDE step\<close>

lemma smult_is_mat:
  assumes "is_mat nr nc A"
  shows "smult c A = mk_mat nr nc (\<lambda>i j. c * A ! i ! j)"
proof -
  have "smult c (mk_mat nr nc (\<lambda>i j. A ! i ! j)) = mk_mat nr nc (\<lambda>i j. c * A ! i ! j)"
    by (rule smult_mk_mat)
  then show ?thesis using mat_eta[OF assms] by simp
qed

lemma madd_is_mat:
  assumes "is_mat nr nc A" "is_mat nr nc B"
  shows "madd A B = mk_mat nr nc (\<lambda>i j. A ! i ! j + B ! i ! j)"
proof -
  have "madd (mk_mat nr nc (\<lambda>i j. A ! i ! j)) (mk_mat nr nc (\<lambda>i j. B ! i ! j)) =
          mk_mat nr nc (\<lambda>i j. A ! i ! j + B ! i ! j)"
    by (rule madd_mk_mat)
  then show ?thesis using mat_eta[OF assms(1)] mat_eta[OF assms(2)] by simp
qed

lemma np_dot_is_mat:
  assumes "is_mat n k A" "is_mat k m B" "0 < n" "0 < k"
  shows "np_dot A B = mk_mat n m (\<lambda>i j. \<Sum>l<k. A ! i ! l * B ! l ! j)"
  using assms by (simp add: np_dot_def nrows_is_mat ncols_is_mat)

lemma np_transpose_is_mat:
  assumes "is_mat n m A" "0 < n"
  shows "np_transpose A = mk_mat m n (\<lambda>i j. A ! j ! i)"
  using assms by (simp add: np_transpose_def nrows_is_mat ncols_is_mat)

lemma ito_step_spec:
  assumes "is_mat nu N R" "is_mat nu m Z" "is_mat nu m Y" "is_mat nu N H"
    "is_mat N m g" "is_mat N m a"
    "0 < nu" "0 < N" "0 < m" "0 < f0" "0 < dr" "0 < beta"
  shows "simulate_ito_step R Z Y H g a f0 dr beta =
           Inr (mk_mat nu m (spec_Znext nu N m R Z Y H g a f0 dr beta),
                mk_mat nu m (spec_Ynext nu N m R Z Y H g a f0 dr beta))"
proof -
  define b where "b = f0 * dr / 4"
  have b: "1 + b \<noteq> 0" "\<not> f0 < 0" using assms(10,11) by (simp_all add: b_def add_pos_pos less_imp_neq[THEN not_sym])
  have W: "smult (dr powr (1 / 2)) R = mk_mat nu N (\<lambda>i k. sqrt dr * R ! i ! k)"
    using assms(11) by (simp add: smult_is_mat[OF assms(1)] powr_half_sqrt)
  have dW: "np_dot (mk_mat nu N (\<lambda>i k. sqrt dr * R ! i ! k)) a = mk_mat nu m (spec_dW N R a dr)"
  proof -
    have "np_dot (mk_mat nu N (\<lambda>i k. sqrt dr * R ! i ! k)) a =
            mk_mat nu m (\<lambda>i j. \<Sum>l<N. mk_mat nu N (\<lambda>i k. sqrt dr * R ! i ! k) ! i ! l * a ! l ! j)"
      using assms(6,7,8) by (intro np_dot_is_mat) simp_all
    also have "\<dots> = mk_mat nu m (spec_dW N R a dr)"
      by (rule mk_mat_cong) (simp add: spec_dW_def sum_distrib_left mult.assoc)
    finally show ?thesis .
  qed
  have Zh: "madd Z (smult (dr / 2) Y) = mk_mat nu m (spec_Zhalf Z Y dr)"
  proof -
    have "madd Z (smult (dr / 2) Y) =
            mk_mat nu m (\<lambda>i j. Z ! i ! j + mk_mat nu m (\<lambda>i j. dr / 2 * Y ! i ! j) ! i ! j)"
      unfolding smult_is_mat[OF assms(3)] using assms(2) by (intro madd_is_mat) simp_all
    also have "\<dots> = mk_mat nu m (spec_Zhalf Z Y dr)"
      by (rule mk_mat_cong) (simp add: spec_Zhalf_def)
    finally show ?thesis .
  qed
  have gT: "np_transpose g = mk_mat m N (\<lambda>j k. g ! k ! j)"
    using assms(5,8) by (rule np_transpose_is_mat)
  have U: "np_dot (mk_mat nu m (spec_Zhalf Z Y dr)) (mk_mat m N (\<lambda>j k. g ! k ! j)) =
             spec_u nu N m Z Y g dr"
    using assms(7,9) by (simp add: np_dot_mk_mat spec_u_def)
  define G where "G = mk_mat nu N (\<lambda>i k. spec_grad_log_q nu N H (spec_u nu N m Z Y g dr) beta k i)"
  have GL: "get_L H (spec_u nu N m Z Y g dr) beta = Inr G"
    unfolding G_def using assms(4) _ assms(7,8,8,12)
    by (rule get_L_spec) (simp add: spec_u_def)
  have L: "np_dot G a = mk_mat nu m (spec_L nu N m Z Y H g a dr beta)"
  proof -
    have "np_dot G a = mk_mat nu m (\<lambda>i j. \<Sum>l<N. G ! i ! l * a ! l ! j)"
      using assms(6,7,8) by (intro np_dot_is_mat) (simp_all add: G_def)
    also have "\<dots> = mk_mat nu m (spec_L nu N m Z Y H g a dr beta)"
      by (rule mk_mat_cong) (simp add: spec_L_def G_def)
    finally show ?thesis .
  qed
  define Yn where "Yn = madd (madd (smult ((1 - b) / (1 + b)) Y)
                              (smult (dr / (1 + b)) (mk_mat nu m (spec_L nu N m Z Y H g a dr beta))))
                        (smult (sqrt f0 / (1 + b)) (mk_mat nu m (spec_dW N R a dr)))"
  have Yn: "Yn = mk_mat nu m (spec_Ynext nu N m R Z Y H g a f0 dr beta)"
  proof -
    have "Yn = mk_mat nu m (\<lambda>i j. (1 - b) / (1 + b) * Y ! i ! j
                + dr / (1 + b) * spec_L nu N m Z Y H g a dr beta i j
                + sqrt f0 / (1 + b) * spec_dW N R a dr i j)"
      unfolding Yn_def smult_is_mat[OF assms(3)] smult_mk_mat madd_mk_mat ..
    also have "\<dots> = mk_mat nu m (spec_Ynext nu N m R Z Y H g a f0 dr beta)"
      by (rule mk_mat_cong) (simp add: spec_Ynext_def b_def Let_def)
    finally show ?thesis .
  qed
  have Zn: "madd (mk_mat nu m (spec_Zhalf Z Y dr))
                 (smult (dr / 2) (mk_mat nu m (spec_Ynext nu N m R Z Y H g a f0 dr beta))) =
              mk_mat nu m (spec_Znext nu N m R Z Y H g a f0 dr beta)"
    unfolding smult_mk_mat madd_mk_mat by (rule mk_mat_cong) (simp add: spec_Znext_def)
  show ?thesis
    unfolding simulate_ito_step_def Let_def b_def[symmetric] W dW Zh gT U GL
    using b by (simp add: L Yn_def[symmetric] Yn Zn)
qed

text \<open>
  Claim C1. For a state \<open>(Z, Y)\<close> of shape \<open>\<nu> \<times> m\<close>, \<open>H\<close> of shape \<open>\<nu> \<times> N\<close>, \<open>g\<close> and \<open>a\<close> of
  shape \<open>N \<times> m\<close>, the Gaussian draw \<open>R\<close> of shape \<open>\<nu> \<times> N\<close>, \<open>f\<^sub>0 > 0\<close> and \<open>dr > 0\<close> (and a
  bandwidth factor \<open>\<beta> > 0\<close>), one step returns exactly the pair \<open>(Z\<^sub>n\<^sub>e\<^sub>x\<^sub>t, Y\<^sub>n\<^sub>e\<^sub>x\<^sub>t)\<close> of the
  specification: \<open>b = f\<^sub>0 dr / 4\<close>, \<open>Z\<^sub>h\<^sub>a\<^sub>l\<^sub>f = Z + (dr/2) Y\<close>, \<open>L = (\<nabla> log q)(Z\<^sub>h\<^sub>a\<^sub>l\<^sub>f g\<^sup>T) a\<close>,
  \<open>dW = \<surd>dr R a\<close>, \<open>Y\<^sub>n\<^sub>e\<^sub>x\<^sub>t = ((1-b)/(1+b)) Y + (dr/(1+b)) L + (\<surd>f\<^sub>0/(1+b)) dW\<close> and
  \<open>Z\<^sub>n\<^sub>e\<^sub>x\<^sub>t = Z\<^sub>h\<^sub>a\<^sub>l\<^sub>f + (dr/2) Y\<^sub>n\<^sub>e\<^sub>x\<^sub>t\<close>.
\<close>

theorem ito_step_formula:
  assumes "is_mat nu N R" "is_mat nu m Z" "is_mat nu m Y" "is_mat nu N H"
    "is_mat N m g" "is_mat N m a"
    "0 < nu" "0 < N" "0 < m" "0 < f0" "0 < dr" "0 < beta"
  shows "simulate_ito_step R Z Y H g a f0 dr beta =
           Inr (mk_mat nu m (spec_Znext nu N m R Z Y H g a f0 dr beta),
                mk_mat nu m (spec_Ynext nu N m R Z Y H g a f0 dr beta))"
  using assms by (rule ito_step_spec)

theorem ito_step_formula_witness:
  "is_mat 2 1 [[1], [2]] \<and> is_mat 2 1 [[0], [3]] \<and> is_mat 2 1 [[1], [1]] \<and> is_mat 2 1 [[1], [0]] \<and>
   is_mat 1 1 [[1]] \<and> (0::real) < 4 \<and> (0::real) < 1 \<and>
   simulate_ito_step [[1], [2]] [[0], [3]] [[1], [1]] [[1], [0]] [[1]] [[1]] 4 1 1 =
     Inr (mk_mat 2 1 (spec_Znext 2 1 1 [[1], [2]] [[0], [3]] [[1], [1]] [[1], [0]] [[1]] [[1]] 4 1 1),
          mk_mat 2 1 (spec_Ynext 2 1 1 [[1], [2]] [[0], [3]] [[1], [1]] [[1], [0]] [[1]] [[1]] 4 1 1))"
  using ito_step_formula [of 2 1 "[[1], [2]]" 1 "[[0], [3]]" "[[1], [1]]" "[[1], [0]]"
      "[[1]]" "[[1]]" 4 1 1]
  by (simp add: is_mat_def)

lemma spec_s_2_1: "spec_s (Suc (Suc 0)) (Suc 0) 1 = 1"
  by (simp add: spec_s_def)

lemma spec_shat_2_1: "spec_shat (Suc (Suc 0)) (Suc 0) 1 = 1"
  by (simp add: spec_shat_def spec_s_2_1)

lemma mk_mat_2_1: "mk_mat (Suc (Suc 0)) (Suc 0) f = [[f 0 0], [f 1 0]]"
  by (simp add: mk_mat_def)

lemma get_L_example: "get_L [[1], [0]] [[0], [0]] 1 = Inr [[1], [0]]"
proof -
  have "get_L (mk_mat (Suc (Suc 0)) (Suc 0) (\<lambda>j k. if j = 0 then 1 else 0))
              (mk_mat (Suc (Suc 0)) (Suc 0) (\<lambda>j l. 0)) 1 =
          Inr [[1], [0]]"
    by (subst get_L_mk_mat) (simp_all add: spec_s_2_1 spec_shat_2_1 mk_mat_2_1)
  then show ?thesis by (simp add: mk_mat_2_1)
qed

lemma mk_mat_eq_iff:
  "mk_mat nr nc f = mk_mat nr nc g \<longleftrightarrow> (\<forall>i<nr. \<forall>j<nc. f i j = g i j)"
proof
  assume eq: "mk_mat nr nc f = mk_mat nr nc g"
  show "\<forall>i<nr. \<forall>j<nc. f i j = g i j"
  proof (intro allI impI)
    fix i j assume "i < nr" "j < nc"
    then have "mk_mat nr nc f ! i ! j = f i j" "mk_mat nr nc g ! i ! j = g i j" by simp_all
    with eq show "f i j = g i j" by simp
  qed
next
  assume "\<forall>i<nr. \<forall>j<nc. f i j = g i j"
  then show "mk_mat nr nc f = mk_mat nr nc g" by (intro mk_mat_cong) simp
qed


text \<open>
  Claim C8, as stated, fails. With \<open>\<nu> = 2\<close>, \<open>N = m = 1\<close>, the training point \<open>(1, 0)\<close>,
  \<open>g = a = (1)\<close>, \<open>f\<^sub>0 = 4\<close>, \<open>dr = 1\<close>, the state \<open>Z = 0\<close>, the momentum \<open>Y = 0\<close> and the draw
  \<open>R = 0\<close> (so \<open>dW = 0\<close>), the force \<open>L\<close> at \<open>Z\<close> is \<open>(1, 0)\<close> and the step moves \<open>Z\<close> to
  \<open>(1/4, 0)\<close>.
\<close>

theorem ito_step_fixed_point_counterexample:
  "simulate_ito_step [[0], [0]] [[0], [0]] [[0], [0]] [[1], [0]] [[1]] [[1]] 4 1 1 =
     Inr ([[1/4], [0]], [[1/2], [0]]) \<and>
   [[1/4], [0]] \<noteq> [[0], [0 :: real]]"
proof -
  have Zh: "madd [[0], [0]] (smult (1 / 2) [[0], [0]]) = [[0], [0]]"
    by (simp add: madd_def smult_def)
  have gT: "np_transpose [[1]] = [[1]]"
    by (simp add: np_transpose_def mk_mat_def nrows_def ncols_def)
  have U: "np_dot [[0], [0]] [[1]] = [[0], [0]]"
    by (simp add: np_dot_def mk_mat_def nrows_def ncols_def numeral_2_eq_2)
  have L: "np_dot [[1], [0]] [[1]] = [[1], [0]]"
    by (simp add: np_dot_def mk_mat_def nrows_def ncols_def numeral_2_eq_2)
  have W: "smult (1 powr (1 / 2)) [[0], [0]] = [[0], [0]]"
    by (simp add: smult_def)
  show ?thesis
    unfolding simulate_ito_step_def Let_def
    by (simp add: Zh gT U L W get_L_example) (simp add: madd_def smult_def U)
qed


text \<open>
  Claim C8, amended: with \<open>dW = 0\<close> and \<open>Y = 0\<close> the step returns
  \<open>Z\<^sub>n\<^sub>e\<^sub>x\<^sub>t = Z + (dr\<^sup>2 / (2 (1 + b))) L\<close>, where \<open>b = f\<^sub>0 dr / 4\<close> and
  \<open>L = (\<nabla> log q)(Z g\<^sup>T) a\<close> is the force at \<open>Z\<close>; the state is left unchanged only where that
  force vanishes.
\<close>

theorem ito_step_zero_noise:
  assumes "is_mat nu N R" "is_mat nu m Z" "is_mat nu N H" "is_mat N m g" "is_mat N m a"
    "0 < nu" "0 < N" "0 < m" "0 < f0" "0 < dr" "0 < beta"
    "np_dot R a = zeros nu m" "Y = zeros nu m"
  defines "U \<equiv> mk_mat nu N (\<lambda>i k. \<Sum>j<m. Z ! i ! j * g ! k ! j)"
  defines "L \<equiv> \<lambda>i j. \<Sum>k<N. spec_grad_log_q nu N H U beta k i * a ! k ! j"
  shows "\<exists>Ynext. simulate_ito_step R Z Y H g a f0 dr beta =
           Inr (mk_mat nu m (\<lambda>i j. Z ! i ! j + dr\<^sup>2 / (2 * (1 + f0 * dr / 4)) * L i j), Ynext)"
proof -
  have Y: "is_mat nu m Y" by (simp add: assms(13) zeros_def)
  have Y0: "Y ! i ! j = 0" if "i < nu" "j < m" for i j
    using that by (simp add: assms(13) zeros_def)
  have "mk_mat nu m (\<lambda>i j. \<Sum>l<N. R ! i ! l * a ! l ! j) = mk_mat nu m (\<lambda>i j. 0)"
    using np_dot_is_mat[OF assms(1,5,6,7)] assms(12) by (simp add: zeros_def)
  then have dW0: "(\<Sum>l<N. R ! i ! l * a ! l ! j) = 0" if "i < nu" "j < m" for i j
    using that by (simp add: mk_mat_eq_iff)
  have u: "spec_u nu N m Z Y g dr = U"
    unfolding spec_u_def U_def
    by (rule mk_mat_cong) (simp add: spec_Zhalf_def Y0)
  have "mk_mat nu m (spec_Znext nu N m R Z Y H g a f0 dr beta) =
          mk_mat nu m (\<lambda>i j. Z ! i ! j + dr\<^sup>2 / (2 * (1 + f0 * dr / 4)) * L i j)"
    by (rule mk_mat_cong)
       (simp add: spec_Znext_def spec_Ynext_def spec_Zhalf_def spec_dW_def spec_L_def
          Y0 dW0 u L_def Let_def power2_eq_square)
  with ito_step_spec[OF assms(1,2) Y assms(3-11)] show ?thesis by simp
qed

theorem ito_step_zero_noise_witness:
  "is_mat 2 1 [[0], [0]] \<and> is_mat 2 1 [[1], [0]] \<and> is_mat 1 1 [[1]] \<and>
   (0::real) < 4 \<and> (0::real) < 1 \<and>
   np_dot [[0], [0]] [[1]] = zeros 2 1 \<and> [[0], [0]] = zeros 2 1 \<and>
   (\<exists>Ynext. simulate_ito_step [[0], [0]] [[0], [0]] [[0], [0]] [[1], [0]] [[1]] [[1]] 4 1 1 =
      Inr (mk_mat 2 1 (\<lambda>i j. [[0], [0]] ! i ! j + 1\<^sup>2 / (2 * (1 + 4 * 1 / 4)) *
             (\<Sum>k<1. spec_grad_log_q 2 1 [[1], [0]]
                       (mk_mat 2 1 (\<lambda>i k. \<Sum>j<1. [[0], [0]] ! i ! j * [[1]] ! k ! j)) 1 k i *
                     [[1]] ! k ! j)), Ynext))"
proof -
  have d: "np_dot [[0], [0]] [[1]] = zeros 2 1" "[[0], [0]] = zeros 2 1"
    by (simp_all add: np_dot_def zeros_def mk_mat_def nrows_def ncols_def numeral_2_eq_2)
  have m: "is_mat 2 1 [[0], [0]]" "is_mat 2 1 [[1], [0]]" "is_mat 1 1 [[1]]"
    by (simp_all add: is_mat_def)
  from ito_step_zero_noise [OF m(1) m(1) m(2) m(3) m(3) _ _ _ _ _ _ d, of 4 1 1] d m
  show ?thesis by simp
qed

subsection \<open>Projection on the reduced basis\<close>

lemma np_dot_assoc:
  assumes "is_mat n k A" "is_mat k l B" "is_mat l m C" "0 < n" "0 < k" "0 < l"
  shows "np_dot (np_dot A B) C = np_dot A (np_dot B C)"
proof -
  have AB: "np_dot A B = mk_mat n l (\<lambda>i p. \<Sum>q<k. A ! i ! q * B ! q ! p)"
    using assms(1,2,4,5) by (rule np_dot_is_mat)
  have BC: "np_dot B C = mk_mat k m (\<lambda>q j. \<Sum>p<l. B ! q ! p * C ! p ! j)"
    using assms(2,3,5,6) by (rule np_dot_is_mat)
  have "np_dot (np_dot A B) C =
          mk_mat n m (\<lambda>i j. \<Sum>p<l. mk_mat n l (\<lambda>i p. \<Sum>q<k. A ! i ! q * B ! q ! p) ! i ! p * C ! p ! j)"
    unfolding AB using _ assms(3,4,6) by (rule np_dot_is_mat) simp
  also have "\<dots> = mk_mat n m (\<lambda>i j. \<Sum>p<l. (\<Sum>q<k. A ! i ! q * B ! q ! p) * C ! p ! j)"
    by (rule mk_mat_cong) simp
  also have "\<dots> = mk_mat n m (\<lambda>i j. \<Sum>q<k. A ! i ! q * (\<Sum>p<l. B ! q ! p * C ! p ! j))"
  proof (rule mk_mat_cong)
    fix i j
    have "(\<Sum>p<l. (\<Sum>q<k. A ! i ! q * B ! q ! p) * C ! p ! j) =
            (\<Sum>p<l. \<Sum>q<k. A ! i ! q * (B ! q ! p * C ! p ! j))"
      by (simp add: sum_distrib_right mult.assoc)
    also have "\<dots> = (\<Sum>q<k. \<Sum>p<l. A ! i ! q * (B ! q ! p * C ! p ! j))"
      by (rule sum.swap)
    also have "\<dots> = (\<Sum>q<k. A ! i ! q * (\<Sum>p<l. B ! q ! p * C ! p ! j))"
      by (simp add: sum_distrib_left)
    finally show "(\<Sum>p<l. (\<Sum>q<k. A ! i ! q * B ! q ! p) * C ! p ! j) =
                    (\<Sum>q<k. A ! i ! q * (\<Sum>p<l. B ! q ! p * C ! p ! j))" .
  qed
  also have "\<dots> = mk_mat n m (\<lambda>i j. \<Sum>q<k. A ! i ! q *
                       mk_mat k m (\<lambda>q j. \<Sum>p<l. B ! q ! p * C ! p ! j) ! q ! j)"
    by (rule mk_mat_cong) simp
  also have "\<dots> = np_dot A (np_dot B C)"
    unfolding BC using assms(1) _ assms(4,5) by (rule np_dot_is_mat[symmetric]) simp
  finally show ?thesis .
qed

lemma np_transpose_dot:
  assumes "is_mat n k A" "is_mat k m B" "0 < n" "0 < k" "0 < m"
  shows "np_transpose (np_dot A B) = np_dot (np_transpose B) (np_transpose A)"
proof -
  have "np_transpose (np_dot A B) = mk_mat m n (\<lambda>j i. \<Sum>q<k. A ! i ! q * B ! q ! j)"
    unfolding np_dot_is_mat[OF assms(1,2,3,4)] using assms(3) by (rule np_transpose_mk_mat)
  also have "\<dots> = mk_mat m n (\<lambda>j i. \<Sum>q<k. B ! q ! j * A ! i ! q)"
    by (simp add: mult.commute)
  also have "\<dots> = np_dot (mk_mat m k (\<lambda>j q. B ! q ! j)) (mk_mat k n (\<lambda>q i. A ! i ! q))"
    using assms(5,4) by (rule np_dot_mk_mat[symmetric])
  also have "\<dots> = np_dot (np_transpose B) (np_transpose A)"
    unfolding np_transpose_is_mat[OF assms(2,4)] np_transpose_is_mat[OF assms(1,3)] ..
  finally show ?thesis .
qed

lemma np_transpose_transpose:
  assumes "is_mat n m A" "0 < n" "0 < m"
  shows "np_transpose (np_transpose A) = A"
proof -
  have "np_transpose (np_transpose A) = mk_mat n m (\<lambda>i j. A ! i ! j)"
    unfolding np_transpose_is_mat[OF assms(1,2)] using assms(3) by (rule np_transpose_mk_mat)
  then show ?thesis using mat_eta[OF assms(1)] by simp
qed

lemma np_dot_identity:
  assumes "is_mat n m A" "0 < n" "0 < m"
  shows "np_dot A (identity_mat m) = A"
proof -
  have "np_dot A (identity_mat m) =
          mk_mat n m (\<lambda>i j. \<Sum>q<m. A ! i ! q * identity_mat m ! q ! j)"
    using assms by (intro np_dot_is_mat) (simp_all add: identity_mat_def)
  also have "\<dots> = mk_mat n m (\<lambda>i j. A ! i ! j)"
  proof (rule mk_mat_cong)
    fix i j assume "i < n" "j < m"
    have "(\<Sum>q<m. A ! i ! q * identity_mat m ! q ! j) =
            (\<Sum>q<m. if q = j then A ! i ! q else 0)"
      using \<open>j < m\<close> by (intro sum.cong) (auto simp: identity_mat_def)
    also have "\<dots> = A ! i ! j" using \<open>j < m\<close> by (simp add: sum.delta)
    finally show "(\<Sum>q<m. A ! i ! q * identity_mat m ! q ! j) = A ! i ! j" .
  qed
  finally show ?thesis using mat_eta[OF assms(1)] by simp
qed

lemma is_mat_np_dot:
  assumes "is_mat n k A" "is_mat k m B" "0 < n" "0 < k"
  shows "is_mat n m (np_dot A B)"
  unfolding np_dot_is_mat[OF assms] by simp

lemma is_mat_np_transpose:
  assumes "is_mat n m A" "0 < n"
  shows "is_mat m n (np_transpose A)"
  unfolding np_transpose_is_mat[OF assms] by simp

text \<open>
  What the code keeps of the projection invariant: \<open>g\<^sup>T a = I\<^sub>m\<close> for \<open>a = g (g\<^sup>T g)\<^sup>-\<^sup>1\<close>, and the round
  trip through \<^verbatim>\<open>_inverse_sample_projection\<close> and \<^verbatim>\<open>_sample_projection\<close> returns \<open>Z\<close> when
  \<open>\<nu> \<noteq> N\<close>, because the shape test then transposes \<open>g Z\<^sup>T\<close>.
\<close>

lemma reduction_matrix_left_inverse:
  assumes "is_mat N m g" "is_mat m m gtg_inv" "0 < N" "0 < m"
    "np_dot (np_dot (np_transpose g) g) gtg_inv = identity_mat m"
  shows "np_dot (np_transpose g) (np_dot g gtg_inv) = identity_mat m"
proof -
  have gT: "is_mat m N (np_transpose g)" using assms(1,3) by (rule is_mat_np_transpose)
  have "np_dot (np_dot (np_transpose g) g) gtg_inv = np_dot (np_transpose g) (np_dot g gtg_inv)"
    using gT assms(1,2,4,3,4) by (rule np_dot_assoc)
  with assms(5) show ?thesis by simp
qed

lemma projection_round_trip:
  assumes "is_mat N m g" "is_mat nu m Z" "0 < N" "0 < m" "0 < nu" "nu \<noteq> N"
    "linalg_inv (np_dot (np_transpose g) g) = Inr gtg_inv" "is_mat m m gtg_inv"
    "np_dot (np_dot (np_transpose g) g) gtg_inv = identity_mat m"
  shows "sample_projection linalg_inv (inverse_sample_projection Z g) g =
           Inr (Z, np_dot g gtg_inv)"
proof -
  define a where "a = np_dot g gtg_inv"
  have a: "is_mat N m a" unfolding a_def using assms(1,8,3,4) by (rule is_mat_np_dot)
  have ZT: "is_mat m nu (np_transpose Z)" using assms(2,5) by (rule is_mat_np_transpose)
  have gT: "is_mat m N (np_transpose g)" using assms(1,3) by (rule is_mat_np_transpose)
  define Ht where "Ht = np_dot g (np_transpose Z)"
  have Ht: "is_mat N nu Ht" unfolding Ht_def using assms(1) ZT assms(3,4) by (rule is_mat_np_dot)
  have shapes: "ncols Ht = nu" "nrows a = N"
    using Ht a assms(3) by (simp_all add: ncols_is_mat nrows_is_mat)
  have "np_transpose Ht = np_dot (np_transpose (np_transpose Z)) (np_transpose g)"
    unfolding Ht_def using assms(1) ZT assms(3,4,5) by (rule np_transpose_dot)
  then have HtT: "np_transpose Ht = np_dot Z (np_transpose g)"
    using np_transpose_transpose[OF assms(2,5,4)] by simp
  have HtT_mat: "is_mat nu N (np_transpose Ht)" using Ht assms(3) by (rule is_mat_np_transpose)
  have "np_dot (np_transpose Ht) a = np_dot Z (np_dot (np_transpose g) a)"
    unfolding HtT using assms(2) gT a assms(5,4,3) by (rule np_dot_assoc)
  also have "\<dots> = np_dot Z (identity_mat m)"
    unfolding a_def using reduction_matrix_left_inverse[OF assms(1,8,3,4,9)] by simp
  also have "\<dots> = Z" using assms(2,5,4) by (rule np_dot_identity)
  finally have Z: "np_dot (np_transpose Ht) a = Z" .
  have nc: "ncols (np_transpose Ht) = N" using HtT_mat assms(5) by (rule ncols_is_mat)
  show ?thesis
    unfolding sample_projection_def inverse_sample_projection_def assms(7) Ht_def[symmetric]
    using assms(6) by (simp add: Let_def a_def[symmetric] shapes nc Z)
qed

text \<open>
  Claim C6 at \<open>\<nu> = N = 2\<close>, \<open>m = 1\<close>, \<open>g = (1, 0)\<^sup>T\<close> and \<open>Z = (0, 1)\<^sup>T\<close>: \<open>g\<^sup>T g = (1)\<close> is
  invertible and \<open>a = g\<close>. The inverse projection gives the square matrix
  \<open>g Z\<^sup>T = ((0, 1), (0, 0))\<close>; its number of columns equals \<open>N\<close>, so the projection does not
  transpose it and returns \<open>(0, 0)\<^sup>T\<close> instead of \<open>Z\<close>.
\<close>

theorem projection_round_trip_square:
  "sample_projection inv_1x1 (inverse_sample_projection [[0], [1]] [[1], [0]]) [[1], [0]] =
     Inr ([[0], [0]], [[1], [0]]) \<and>
   [[0], [0]] \<noteq> [[0], [1 :: real]]"
proof -
  have H: "inverse_sample_projection [[0], [1]] [[1], [0]] = [[0, 1], [0, 0]]"
    by (simp add: inverse_sample_projection_def np_dot_def np_transpose_def mk_mat_def
        nrows_def ncols_def numeral_2_eq_2)
  have gtg: "np_dot (np_transpose [[1], [0]]) [[1], [0]] = [[1]]"
    by (simp add: np_dot_def np_transpose_def mk_mat_def nrows_def ncols_def numeral_2_eq_2)
  have a: "np_dot [[1], [0]] [[1]] = [[1], [0]]"
    by (simp add: np_dot_def mk_mat_def nrows_def ncols_def numeral_2_eq_2)
  have Z: "np_dot [[0, 1], [0, 0]] [[1], [0]] = [[0], [0]]"
    by (simp add: np_dot_def mk_mat_def nrows_def ncols_def numeral_2_eq_2)
  show ?thesis
    unfolding sample_projection_def H gtg
    by (simp add: inv_1x1_def a Z Let_def) (simp add: nrows_def ncols_def)
qed

text \<open>
  The same basis with \<open>\<nu> = 1 \<noteq> N = 2\<close>: the round trip returns \<open>Z = (3)\<close>.
\<close>

lemma projection_round_trip_example:
  "sample_projection inv_1x1 (inverse_sample_projection [[3]] [[1], [0]]) [[1], [0]] =
     Inr ([[3]], [[1], [0]])"
proof -
  have gtg: "np_dot (np_transpose [[1], [0]]) [[1], [0]] = [[1]]"
    by (simp add: np_dot_def np_transpose_def mk_mat_def nrows_def ncols_def numeral_2_eq_2)
  have inv: "inv_1x1 [[1]] = Inr [[1]]" by (simp add: inv_1x1_def)
  have m: "is_mat 2 1 [[1], [0]]" "is_mat 1 1 [[3]]" "is_mat 1 1 [[1]]"
    by (simp_all add: is_mat_def)
  have a: "np_dot [[1], [0]] [[1]] = [[1], [0]]"
    by (simp add: np_dot_def mk_mat_def nrows_def ncols_def numeral_2_eq_2)
  have i: "np_dot (np_dot (np_transpose [[1], [0]]) [[1], [0]]) [[1]] = identity_mat 1"
    unfolding gtg by (simp add: np_dot_def identity_mat_def mk_mat_def nrows_def ncols_def)
  from projection_round_trip [OF m(1) m(2) _ _ _ _ _ m(3) i, of inv_1x1] gtg inv a
  show ?thesis by simp
qed

subsection \<open>Automatic selection of the bandwidth\<close>

lemma scan_bounds_inv:
  assumes "\<forall>a b. c \<le> a \<and> a \<le> b \<longrightarrow> m b \<le> m a" "m upper \<le> mt" "lower < upper"
    "c \<le> lower" "sorted_wrt (<) (lower # es)"
  shows "case scan_bounds m mt lower upper es of
           (l, u) \<Rightarrow> l < u \<and> m u \<le> mt \<and> lower \<le> l \<and> (l = lower \<or> mt < m l)"
  using assms(3,4,5)
proof (induction es arbitrary: lower)
  case Nil
  then show ?case using assms(2) by simp
next
  case (Cons e es)
  have le: "lower < e" using Cons.prems(3) by simp
  show ?case
  proof (cases "m e > mt")
    case True
    have "e < upper"
    proof (rule ccontr)
      assume "\<not> e < upper"
      then have "c \<le> upper \<and> upper \<le> e" using Cons.prems(1,2) by simp
      then have "m e \<le> m upper" using assms(1) by blast
      with True assms(2) show False by simp
    qed
    moreover have "c \<le> e" using le Cons.prems(2) by simp
    moreover have "sorted_wrt (<) (e # es)" using Cons.prems(3) by simp
    ultimately have "case scan_bounds m mt e upper es of
        (l, u) \<Rightarrow> l < u \<and> m u \<le> mt \<and> e \<le> l \<and> (l = e \<or> mt < m l)"
      by (rule Cons.IH)
    then show ?thesis using True le by (auto split: prod.splits)
  next
    case False
    then show ?thesis using le by simp
  qed
qed

lemma bisect_bounds_inv:
  assumes "m upper \<le> mt" "lower < upper"
  shows "case bisect_bounds m mt lower upper of
           (l, u) \<Rightarrow> l < u \<and> m u \<le> mt \<and> u - l \<le> 1 / 2 \<and> lower \<le> l \<and>
                     (l = lower \<or> mt < m l)"
  using assms
proof (induction m mt lower upper rule: bisect_bounds.induct)
  case (1 m mt lower upper)
  show ?case
  proof (cases "upper - lower > 1 / 2")
    case gap: True
    define mid where "mid = (lower + upper) / 2"
    have mid: "lower < mid" "mid < upper" using "1.prems"(2) by (simp_all add: mid_def field_simps)
    show ?thesis
    proof (cases "m mid > mt")
      case True
      have "case bisect_bounds m mt mid upper of
              (l, u) \<Rightarrow> l < u \<and> m u \<le> mt \<and> u - l \<le> 1 / 2 \<and> mid \<le> l \<and>
                        (l = mid \<or> mt < m l)"
        using gap mid_def True "1.prems"(1) mid(2) by (rule "1.IH"(1))
      moreover have "bisect_bounds m mt lower upper = bisect_bounds m mt mid upper"
        using gap True by (subst bisect_bounds.simps) (simp add: mid_def Let_def)
      ultimately show ?thesis using mid(1) True by (auto split: prod.splits)
    next
      case False
      then have le: "m mid \<le> mt" by simp
      have "case bisect_bounds m mt lower mid of
              (l, u) \<Rightarrow> l < u \<and> m u \<le> mt \<and> u - l \<le> 1 / 2 \<and> lower \<le> l \<and>
                        (l = lower \<or> mt < m l)"
        using gap mid_def False le mid(1) by (rule "1.IH"(2))
      moreover have "bisect_bounds m mt lower upper = bisect_bounds m mt lower mid"
        using gap False by (subst bisect_bounds.simps) (simp add: mid_def Let_def)
      ultimately show ?thesis by simp
    qed
  next
    case False
    then have "bisect_bounds m mt lower upper = (lower, upper)"
      by (subst bisect_bounds.simps) simp
    then show ?thesis using False "1.prems" by simp
  qed
qed

lemma increase_lower_steps:
  assumes "m (lower + real k / 10) \<le> mt"
  shows "\<exists>e. increase_lower m mt lower = Some e \<and> m e \<le> mt \<and> lower \<le> e \<and>
             e \<le> lower + real k / 10 \<and> (e = lower \<or> mt < m (e - 1 / 10))"
  using assms
proof (induction k arbitrary: lower)
  case 0
  then have "increase_lower m mt lower = Some lower"
    by (subst increase_lower.simps) simp
  then show ?case using 0 by simp
next
  case (Suc k)
  show ?case
  proof (cases "m lower > mt")
    case True
    have "m (lower + 1 / 10 + real k / 10) \<le> mt"
      using Suc.prems by (simp add: field_simps)
    from Suc.IH[OF this] obtain e where e: "increase_lower m mt (lower + 1 / 10) = Some e"
      "m e \<le> mt" "lower + 1 / 10 \<le> e" "e \<le> lower + 1 / 10 + real k / 10"
      "e = lower + 1 / 10 \<or> mt < m (e - 1 / 10)"
      by blast
    have "increase_lower m mt lower = Some e"
      using True e(1) by (subst increase_lower.simps) simp
    moreover have "e \<le> lower + real (Suc k) / 10" using e(4) by (simp add: field_simps)
    moreover have "mt < m (e - 1 / 10)" using e(5) True by auto
    ultimately show ?thesis using e(2,3) by auto
  next
    case False
    then have "increase_lower m mt lower = Some lower"
      by (subst increase_lower.simps) simp
    then show ?thesis using False by simp
  qed
qed

lemma increase_lower_SomeD:
  assumes "increase_lower m mt lower = Some e"
  shows "m e \<le> mt \<and> (\<exists>k. e = lower + real k / 10)"
proof (rule increase_lower.raw_induct
    [where P = "\<lambda>m mt lower e. m e \<le> mt \<and> (\<exists>k. e = lower + real k / 10)", OF _ assms])
  fix f :: "(real \<Rightarrow> int) \<Rightarrow> int \<Rightarrow> real \<Rightarrow> real option"
    and m :: "real \<Rightarrow> int" and mt :: int and lower e :: real
  assume IH: "\<And>m mt lower e. f m mt lower = Some e \<Longrightarrow>
                 m e \<le> mt \<and> (\<exists>k. e = lower + real k / 10)"
    and step: "(if mt < m lower then f m mt (lower + 1 / 10) else Some lower) = Some e"
  show "m e \<le> mt \<and> (\<exists>k. e = lower + real k / 10)"
  proof (cases "mt < m lower")
    case True
    with step have "f m mt (lower + 1 / 10) = Some e" by simp
    from IH[OF this] obtain k where k: "m e \<le> mt" "e = lower + 1 / 10 + real k / 10" by blast
    have "lower + 1 / 10 + real k / 10 = lower + real (Suc k) / 10" by (simp add: field_simps)
    with k(2) have "e = lower + real (Suc k) / 10" by simp
    with k(1) show ?thesis by blast
  next
    case False
    with step have e: "e = lower" by simp
    have "lower = lower + real 0 / 10" by simp
    with e have "\<exists>k. e = lower + real k / 10" by blast
    with False e show ?thesis by simp
  qed
qed

lemma increase_lower_diverges:
  assumes "\<forall>k. mt < m (lower + real k / 10)"
  shows "increase_lower m mt lower = None"
proof (cases "increase_lower m mt lower")
  case None
  then show ?thesis .
next
  case (Some e)
  from increase_lower_SomeD[OF this] obtain k where "m e \<le> mt" "e = lower + real k / 10"
    by blast
  with assms show ?thesis by (metis not_less)
qed

lemma m_target_antimono:
  fixes m :: "real \<Rightarrow> int"
  assumes "\<forall>a b. 1 / 10 \<le> a \<and> a \<le> b \<longrightarrow> m b \<le> m a"
  shows "Min (set (map m eps_for_m_target)) = m 10000"
proof (rule Min_eqI)
  show "finite (set (map m eps_for_m_target))" by simp
  show "m 10000 \<in> set (map m eps_for_m_target)" by (simp add: eps_for_m_target_def)
  fix y assume "y \<in> set (map m eps_for_m_target)"
  then obtain p where "y = m p" "1 / 10 \<le> p \<and> p \<le> 10000" by (auto simp: eps_for_m_target_def)
  with assms show "m 10000 \<le> y" by blast
qed

lemma np_argmin_attains:
  assumes "xs \<noteq> []"
  shows "np_argmin xs < length xs \<and> xs ! np_argmin xs = Min (set xs)"
proof -
  have "Min (set xs) \<in> set xs" using assms by (intro Min_in) simp_all
  then have ne: "takeWhile (\<lambda>x. x \<noteq> Min (set xs)) xs \<noteq> xs"
    by (auto simp: takeWhile_eq_all_conv)
  have "length (takeWhile (\<lambda>x. x \<noteq> Min (set xs)) xs) \<noteq> length xs"
  proof
    assume eq: "length (takeWhile (\<lambda>x. x \<noteq> Min (set xs)) xs) = length xs"
    have "length (takeWhile (\<lambda>x. x \<noteq> Min (set xs)) xs @ dropWhile (\<lambda>x. x \<noteq> Min (set xs)) xs)
            = length xs"
      by simp
    with eq have "dropWhile (\<lambda>x. x \<noteq> Min (set xs)) xs = []"
      unfolding length_append by simp
    then have "takeWhile (\<lambda>x. x \<noteq> Min (set xs)) xs = xs"
      by (metis append_Nil2 takeWhile_dropWhile_id)
    with ne show False by simp
  qed
  then have "length (takeWhile (\<lambda>x. x \<noteq> Min (set xs)) xs) < length xs"
    using length_takeWhile_le[of "\<lambda>x. x \<noteq> Min (set xs)" xs] by linarith
  moreover from this have "\<not> (xs ! length (takeWhile (\<lambda>x. x \<noteq> Min (set xs)) xs) \<noteq> Min (set xs))"
    by (rule nth_length_takeWhile)
  ultimately show ?thesis by (simp add: np_argmin_def)
qed

lemma two_point_dimension: "get_dmaps_dim_from_epsilon two_point_eigvals eps (1 / 10) = 1"
  by (simp add: get_dmaps_dim_from_epsilon_def two_point_eigvals_def
      get_dmaps_optimal_dimension_def)

lemma two_point_search:
  "get_dmaps_optimal_epsilon two_point_eigvals (1 / 10) = Some (1 / 10, 1)"
proof -
  have b: "bisect_bounds (\<lambda>eps. 1) 1 (1 / 10) 1 = (1 / 10, 11 / 20)"
    by (subst bisect_bounds.simps, simp add: Let_def)+
  have i: "increase_lower (\<lambda>eps. 1) 1 (1 / 10) = Some (1 / 10)"
    by (subst increase_lower.simps) simp
  show ?thesis
    unfolding get_dmaps_optimal_epsilon_def Let_def two_point_dimension
    by (simp add: eps_for_m_target_def epsilon_list_def np_argmin_def b i)
qed

lemma step_dimension:
  "(\<lambda>eps. get_dmaps_dim_from_epsilon step_eigvals eps (1 / 10)) = (\<lambda>eps. if eps < 3 then 2 else 1)"
  by (rule ext)
     (simp add: get_dmaps_dim_from_epsilon_def step_eigvals_def get_dmaps_optimal_dimension_def
        upt_rec)

lemma step_search:
  "get_dmaps_optimal_epsilon step_eigvals (1 / 10) = Some (61 / 20, 1)"
proof -
  have s: "scan_bounds (\<lambda>eps. if eps < 3 then 2 else 1) 1 (1 / 10) 10
             [1, 2, 8, 16, 32, 64, 100, 10000] = (2, 8)"
    by simp
  have b: "bisect_bounds (\<lambda>eps::real. if eps < 3 then 2 else 1) 1 2 8 = (11 / 4, 25 / 8)"
    by (subst bisect_bounds.simps, simp add: Let_def)+
  have i: "increase_lower (\<lambda>eps::real. if eps < 3 then 2 else 1) 1 (11 / 4) = Some (61 / 20)"
    by (subst increase_lower.simps, simp)+
  show ?thesis
    unfolding get_dmaps_optimal_epsilon_def Let_def step_dimension
    by (simp add: eps_for_m_target_def epsilon_list_def np_argmin_def s b i)
qed

lemma window_dimension:
  "(\<lambda>eps. get_dmaps_dim_from_epsilon window_eigvals eps (1 / 10)) =
     (\<lambda>eps. if eps = 10 then 1 else 2)"
  by (rule ext)
     (simp add: get_dmaps_dim_from_epsilon_def window_eigvals_def
        get_dmaps_optimal_dimension_def upt_rec)

lemma window_search: "get_dmaps_optimal_epsilon window_eigvals (1 / 10) = None"
proof -
  have s: "scan_bounds (\<lambda>eps. if eps = 10 then 1 else 2) 1 (1 / 10) 10
             [1, 2, 8, 16, 32, 64, 100, 10000] = (10000, 10)"
    by simp
  have b: "bisect_bounds (\<lambda>eps::real. if eps = 10 then 1 else 2) 1 10000 10 = (10000, 10)"
    by (subst bisect_bounds.simps) simp
  have "(10000::real) + real k / 10 \<noteq> 10" for k
  proof -
    have "(0::real) \<le> real k / 10" by simp
    then show ?thesis by linarith
  qed
  then have "\<forall>k. 1 < (if (10000::real) + real k / 10 = 10 then 1 else (2::int))" by simp
  then have i: "increase_lower (\<lambda>eps::real. if eps = 10 then 1 else 2) 1 10000 = None"
    by (rule increase_lower_diverges)
  show ?thesis
    unfolding get_dmaps_optimal_epsilon_def Let_def window_dimension
    by (simp add: eps_for_m_target_def epsilon_list_def np_argmin_def s b i)
qed

lemma late_drop_dimension:
  "(\<lambda>eps. get_dmaps_dim_from_epsilon late_drop_eigvals eps (1 / 10)) =
     (\<lambda>eps. if eps < 9999999 / 1000 then 3 else if eps < 1000005 / 100 then 2 else 1)"
  by (rule ext)
     (simp add: get_dmaps_dim_from_epsilon_def late_drop_eigvals_def
        get_dmaps_optimal_dimension_def upt_rec)

lemma late_drop_search:
  "get_dmaps_optimal_epsilon late_drop_eigvals (1 / 10) = Some (409604009 / 40960, 2)"
proof -
  let ?m = "\<lambda>eps::real. if eps < 9999999 / 1000 then 3 else if eps < 1000005 / 100 then 2 else (1::int)"
  have ml: "map ?m eps_for_m_target = [3, 3, 3, 3, 2]"
    by (simp add: eps_for_m_target_def)
  have mt: "Min (set [3, 3, 3, 3, 2 :: int]) = 2" by simp
  have up: "eps_for_m_target ! np_argmin [3, 3, 3, 3, 2] = 10000"
    by (simp add: eps_for_m_target_def np_argmin_def)
  have e0: "epsilon_list ! 0 = 1 / 10" "tl epsilon_list = [1, 2, 8, 16, 32, 64, 100, 10000]"
    by (simp_all add: epsilon_list_def)
  have s: "scan_bounds ?m 2 (1 / 10) 10000 [1, 2, 8, 16, 32, 64, 100, 10000] = (100, 10000)"
    by simp
  have b: "bisect_bounds ?m 2 100 10000 = (81917525 / 8192, 10000)"
    by (subst bisect_bounds.simps, simp add: Let_def)+
  have i: "increase_lower ?m 2 (81917525 / 8192) = Some (409604009 / 40960)"
    by (subst increase_lower.simps, simp)+
  show ?thesis
    unfolding get_dmaps_optimal_epsilon_def Let_def late_drop_dimension ml mt up e0 s prod.case b i
    by simp
qed

text \<open>
  Claim C4, as stated, fails, in three ways.

  For a data set of two points the dimension rule returns \<open>m = 1\<close> for every bandwidth (a
  list of two eigenvalues leaves nothing to scan), so \<open>m* = 1\<close>; the search returns
  \<open>\<epsilon> = 0.1\<close>, the first entry of its list, while the smaller bandwidth \<open>0.05\<close> attains the
  same minimum: the value returned is not the smallest bandwidth that attains it.

  For \<open>window_eigvals\<close> the minimum \<open>m* = 1\<close> is attained at the probe \<open>10\<close> only, which is not
  in the list that is scanned; the scan ends with \<open>\<epsilon>\<^sub>l\<^sub>o\<^sub>w\<^sub>e\<^sub>r = 10000\<close>, and the last loop
  increases it for ever: the search does not return.

  For \<open>late_drop_eigvals\<close>, whose dimension does not increase with \<open>\<epsilon>\<close>, the bracket is
  \<open>(100, 10000)\<close>, the bisection ends at \<open>\<epsilon>\<^sub>l\<^sub>o\<^sub>w\<^sub>e\<^sub>r = 10000 - 2475/8192\<close>, and the fourth
  increment passes \<open>10000\<close>; the search returns \<open>\<epsilon> \<approx> 10000.098\<close> with \<open>m(\<epsilon>) = 1 < m* = 2\<close>.
\<close>

theorem optimal_epsilon_counterexample:
  "get_dmaps_optimal_epsilon two_point_eigvals (1 / 10) = Some (1 / 10, 1) \<and>
   get_dmaps_dim_from_epsilon two_point_eigvals (1 / 20) (1 / 10) = 1 \<and>
   (0::real) < 1 / 20 \<and> (1::real) / 20 < 1 / 10 \<and>
   get_dmaps_optimal_epsilon window_eigvals (1 / 10) = None \<and>
   get_dmaps_optimal_epsilon late_drop_eigvals (1 / 10) = Some (409604009 / 40960, 2) \<and>
   get_dmaps_dim_from_epsilon late_drop_eigvals (409604009 / 40960) (1 / 10) = 1"
proof -
  have "get_dmaps_dim_from_epsilon late_drop_eigvals (409604009 / 40960) (1 / 10) = 1"
    using late_drop_dimension [THEN fun_cong, of "409604009 / 40960"] by simp
  with two_point_search two_point_dimension window_search late_drop_search
  show ?thesis by simp
qed

text \<open>
  Claim C4, amended: when the dimension \<open>m(\<epsilon>)\<close> does not increase with \<open>\<epsilon>\<close> on \<open>[0.1, \<infinity>)\<close>
  (and \<open>\<mu>\<^sub>1(\<epsilon>) \<noteq> 0\<close> there), the automatic selection terminates and returns, together with
  \<open>m*\<close> (the minimum of \<open>m\<close> over the probe list \<open>{1, 10, 100, 1000, 10000}\<close>), a bandwidth
  \<open>\<epsilon> \<ge> 0.1\<close> with \<open>m(\<epsilon>) \<le> m*\<close>, and \<open>m(\<epsilon>) = m*\<close> whenever \<open>\<epsilon> \<le> 10000\<close>. That \<open>\<epsilon>\<close> is the
  smallest bandwidth with this property up to the step \<open>0.1\<close> and the floor \<open>0.1\<close> of the
  search: every bandwidth in \<open>[0.1, \<epsilon> - 0.1]\<close> gives a dimension above \<open>m*\<close>.
\<close>

theorem optimal_epsilon_monotone:
  fixes dmaps_eigvals :: "real \<Rightarrow> real list" and L :: real
  defines "m \<equiv> \<lambda>eps. get_dmaps_dim_from_epsilon dmaps_eigvals eps L"
  defines "m_star \<equiv> Min (m ` {1, 10, 100, 1000, 10000})"
  assumes mono: "\<forall>a b. 1 / 10 \<le> a \<and> a \<le> b \<longrightarrow> m b \<le> m a"
    and nonzero: "\<forall>eps. 1 / 10 \<le> eps \<longrightarrow>
                    2 \<le> length (dmaps_eigvals eps) \<and> dmaps_eigvals eps ! 1 \<noteq> 0"
  shows "\<exists>epsilon. get_dmaps_optimal_epsilon dmaps_eigvals L = Some (epsilon, m_star) \<and>
           1 / 10 \<le> epsilon \<and> m epsilon \<le> m_star \<and>
           (epsilon \<le> 10000 \<longrightarrow> m epsilon = m_star) \<and>
           (\<forall>x. 1 / 10 \<le> x \<and> x \<le> epsilon - 1 / 10 \<longrightarrow> m_star < m x)"
proof -
  define ml where "ml = map m eps_for_m_target"
  have ms: "m_star = Min (set ml)"
    by (simp add: m_star_def ml_def eps_for_m_target_def)
  have ms_last: "m_star = m 10000"
    unfolding ms ml_def using mono by (rule m_target_antimono)
  define upper0 where "upper0 = eps_for_m_target ! np_argmin ml"
  have ml_ne: "ml \<noteq> []" by (simp add: ml_def eps_for_m_target_def)
  from np_argmin_attains[OF ml_ne]
  have arg: "np_argmin ml < length eps_for_m_target" "ml ! np_argmin ml = m_star"
    by (simp_all add: ml_def ms)
  then have up0: "m upper0 = m_star" by (simp add: upper0_def ml_def)
  have "upper0 \<in> set eps_for_m_target" unfolding upper0_def using arg(1) by (rule nth_mem)
  then have up0_ge: "1 / 10 < upper0" by (auto simp: eps_for_m_target_def)
  obtain l1 u1 where s: "scan_bounds m m_star (1 / 10) upper0 (tl epsilon_list) = (l1, u1)"
    by (cases "scan_bounds m m_star (1 / 10) upper0 (tl epsilon_list)")
  have "case scan_bounds m m_star (1 / 10) upper0 (tl epsilon_list) of
          (l, u) \<Rightarrow> l < u \<and> m u \<le> m_star \<and> 1 / 10 \<le> l \<and> (l = 1 / 10 \<or> m_star < m l)"
    using mono _ up0_ge by (rule scan_bounds_inv) (simp_all add: up0 epsilon_list_def)
  with s have s1: "l1 < u1" "m u1 \<le> m_star" "1 / 10 \<le> l1" "l1 = 1 / 10 \<or> m_star < m l1"
    by simp_all
  obtain l2 u2 where b: "bisect_bounds m m_star l1 u1 = (l2, u2)"
    by (cases "bisect_bounds m m_star l1 u1")
  have "case bisect_bounds m m_star l1 u1 of
          (l, u) \<Rightarrow> l < u \<and> m u \<le> m_star \<and> u - l \<le> 1 / 2 \<and> l1 \<le> l \<and>
                    (l = l1 \<or> m_star < m l)"
    using s1(2,1) by (rule bisect_bounds_inv)
  with b have b1: "l2 < u2" "m u2 \<le> m_star" "u2 - l2 \<le> 1 / 2" "l1 \<le> l2"
    "l2 = l1 \<or> m_star < m l2" by simp_all
  have l2: "1 / 10 \<le> l2" "l2 = 1 / 10 \<or> m_star < m l2"
    using s1(3,4) b1(4,5) by auto
  have "1 / 10 \<le> u2 \<and> u2 \<le> l2 + real 5 / 10" using l2(1) b1(1,3) by simp
  then have "m (l2 + real 5 / 10) \<le> m u2" using mono by blast
  with b1(2) have "m (l2 + real 5 / 10) \<le> m_star" by simp
  from increase_lower_steps[of m l2 5 m_star, OF this] obtain e where
    e: "increase_lower m m_star l2 = Some e" "m e \<le> m_star" "l2 \<le> e"
      "e = l2 \<or> m_star < m (e - 1 / 10)"
    by blast
  have e0: "epsilon_list ! 0 = 1 / 10" by (simp add: epsilon_list_def)
  have res: "get_dmaps_optimal_epsilon dmaps_eigvals L = Some (e, m_star)"
    unfolding get_dmaps_optimal_epsilon_def Let_def m_def[symmetric] ml_def[symmetric]
      ms[symmetric] upper0_def[symmetric] e0 s prod.case b e(1)
    by simp
  have ge: "1 / 10 \<le> e" using l2(1) e(3) by linarith
  have eq: "m e = m_star" if "e \<le> 10000"
  proof -
    have "m 10000 \<le> m e" using mono that ge by blast
    with e(2) ms_last show ?thesis by simp
  qed
  have near: "e = 1 / 10 \<or> (l2 + 1 / 10 \<le> e \<and> m_star < m (e - 1 / 10))"
  proof (cases "e = l2")
    case True
    with e(2) l2(2) show ?thesis by auto
  next
    case False
    with e(4) have gt: "m_star < m (e - 1 / 10)" by simp
    have "l2 + 1 / 10 \<le> e"
    proof (rule ccontr)
      assume "\<not> l2 + 1 / 10 \<le> e"
      from increase_lower_SomeD[OF e(1)] obtain k where k: "e = l2 + real k / 10" by blast
      with False have "k \<noteq> 0" by auto
      then have "1 \<le> real k" by simp
      with k \<open>\<not> l2 + 1 / 10 \<le> e\<close> show False by simp
    qed
    with gt show ?thesis by simp
  qed
  have small: "m_star < m x" if "1 / 10 \<le> x \<and> x \<le> e - 1 / 10" for x
  proof -
    from near that have n: "l2 + 1 / 10 \<le> e" "m_star < m (e - 1 / 10)" by auto
    have "m (e - 1 / 10) \<le> m x" using mono that by blast
    with n(2) show ?thesis by simp
  qed
  from res ge e(2) eq small show ?thesis by blast
qed

theorem optimal_epsilon_monotone_witness:
  "get_dmaps_optimal_epsilon step_eigvals (1 / 10) =
     Some (61 / 20, Min ((\<lambda>eps. get_dmaps_dim_from_epsilon step_eigvals eps (1 / 10)) `
                           {1, 10, 100, 1000, 10000})) \<and>
   get_dmaps_dim_from_epsilon step_eigvals (61 / 20) (1 / 10) =
     Min ((\<lambda>eps. get_dmaps_dim_from_epsilon step_eigvals eps (1 / 10)) `
            {1, 10, 100, 1000, 10000}) \<and>
   Min ((\<lambda>eps. get_dmaps_dim_from_epsilon step_eigvals eps (1 / 10)) `
          {1, 10, 100, 1000, 10000}) <
     get_dmaps_dim_from_epsilon step_eigvals (61 / 20 - 1 / 10) (1 / 10)"
proof -
  let ?m = "\<lambda>eps. get_dmaps_dim_from_epsilon step_eigvals eps (1 / 10)"
  have m_eq: "?m eps = (if eps < 3 then 2 else 1)" for eps
    using step_dimension by (rule fun_cong)
  have mono: "\<forall>a b. 1 / 10 \<le> a \<and> a \<le> b \<longrightarrow> ?m b \<le> ?m a"
    unfolding m_eq by auto
  have nonzero: "\<forall>eps. 1 / 10 \<le> eps \<longrightarrow> 2 \<le> length (step_eigvals eps) \<and> step_eigvals eps ! 1 \<noteq> 0"
    by (simp add: step_eigvals_def)
  from optimal_epsilon_monotone [OF mono nonzero] obtain e where
    e: "get_dmaps_optimal_epsilon step_eigvals (1 / 10) = Some (e, Min (?m ` {1, 10, 100, 1000, 10000}))"
      "e \<le> 10000 \<longrightarrow> ?m e = Min (?m ` {1, 10, 100, 1000, 10000})"
      "\<forall>x. 1 / 10 \<le> x \<and> x \<le> e - 1 / 10 \<longrightarrow> Min (?m ` {1, 10, 100, 1000, 10000}) < ?m x"
    by blast
  from e(1) step_search have e_val: "e = 61 / 20" by simp
  from e(3) have "Min (?m ` {1, 10, 100, 1000, 10000}) < ?m (e - 1 / 10)"
    unfolding e_val by simp
  with e(1,2) show ?thesis unfolding e_val by simp
qed

end
